theory Spec2Isabelle
  imports Main
begin

section \<open>The incremental value extractor\<close>

text \<open>
  \<^verbatim>\<open>extract_complete_json_values\<close> (tool_registry.cpp) scans a byte buffer for complete
  top-level objects or arrays. The three local variables of its inner loop form the scanner
  state. \<^verbatim>\<open>depth\<close> is a C++ \<^verbatim>\<open>int\<close>; it is modelled as an unbounded integer, which agrees
  with the program on every buffer holding fewer than \<open>2^31\<close> opener characters.
\<close>

record scan_state =
  depth :: int
  in_string :: bool
  escape :: bool

definition dquote :: char where
  "dquote = CHR 0x22"

definition backslash :: char where
  "backslash = CHR 0x5C"

definition scan_init :: scan_state where
  "scan_init = \<lparr>depth = 0, in_string = False, escape = False\<rparr>"

text \<open>
  One iteration of the inner \<^verbatim>\<open>for\<close> loop on the character \<open>c\<close>. The boolean of the result
  says whether this character completed the value (the \<^verbatim>\<open>break\<close> of the loop).
\<close>

definition scan_step :: "char \<Rightarrow> char \<Rightarrow> scan_state \<Rightarrow> char \<Rightarrow> scan_state \<times> bool" where
  "scan_step opener closer st c =
     (if in_string st then
        (if escape st then (st\<lparr>escape := False\<rparr>, False)
         else if c = backslash then (st\<lparr>escape := True\<rparr>, False)
         else if c = dquote then (st\<lparr>in_string := False\<rparr>, False)
         else (st, False))
      else
        (if c = dquote then (st\<lparr>in_string := True\<rparr>, False)
         else if c = opener then (st\<lparr>depth := depth st + 1\<rparr>, False)
         else if c = closer then
           (let st' = st\<lparr>depth := depth st - 1\<rparr> in (st', depth st' = 0))
         else (st, False)))"

text \<open>
  The inner \<^verbatim>\<open>for (; i < buffer.size(); ++i)\<close> loop, run on the characters from index \<open>i\<close>
  on. \<open>Some j\<close>: the closer at index \<open>j\<close> brought the depth back to zero. \<open>None\<close>: the
  end of the buffer was reached first.
\<close>

fun scan_value :: "char \<Rightarrow> char \<Rightarrow> scan_state \<Rightarrow> string \<Rightarrow> nat \<Rightarrow> nat option" where
  "scan_value opener closer st [] i = None"
| "scan_value opener closer st (c # cs) i =
     (case scan_step opener closer st c of
        (st', closed) \<Rightarrow>
          if closed then Some i else scan_value opener closer st' cs (Suc i))"

definition is_opener :: "char \<Rightarrow> bool" where
  "is_opener c = (c = CHR ''{'' \<or> c = CHR ''['')"

text \<open>
  The outer \<^verbatim>\<open>while (i < buffer.size())\<close> loop. Every pass starts at \<open>i = 0\<close> (initially, and
  after each erase), so a pass is a call on the current buffer and the values emitted so far.
  The result is the vector \<^verbatim>\<open>out\<close> and the buffer as the function leaves it.
\<close>

function extract_loop :: "string \<Rightarrow> string list \<Rightarrow> string list \<times> string" where
  "extract_loop buffer out =
     (let i = length (takeWhile (\<lambda>c. \<not> is_opener c) buffer) in
      if i \<ge> length buffer then (out, buffer)
      else
        let opener = buffer ! i;
            closer = (if opener = CHR ''{'' then CHR ''}'' else CHR '']'');
            start = i
        in case scan_value opener closer scan_init (drop i buffer) i of
             None \<Rightarrow> (out, buffer)
           | Some j \<Rightarrow>
               let e = j + 1
               in extract_loop (drop e buffer) (out @ [take (e - start) (drop start buffer)]))"
  by pat_completeness auto
termination
  by (relation "measure (\<lambda>(buffer, out). length buffer)") auto

declare extract_loop.simps [simp del]

definition extract_complete_json_values :: "string \<Rightarrow> string list \<times> string" where
  "extract_complete_json_values buffer = extract_loop buffer []"

section \<open>Structured values and failures\<close>

text \<open>
  \<^verbatim>\<open>nlohmann::json\<close> values. The program never looks into a number, so one constructor
  stands for all numbers. An object is the list of its members; the library keeps them in a
  \<^verbatim>\<open>std::map\<close>, so the list is read in key order and \<open>map_of\<close> finds a member by its key.
\<close>

datatype json =
    JNull
  | JBool bool
  | JNumber int
  | JString string
  | JArray "json list"
  | JObject "(string \<times> json) list"

text \<open>
  What a C++ function of the program can throw: an object derived from \<^verbatim>\<open>std::exception\<close>,
  carrying its \<^verbatim>\<open>what()\<close> text, or anything else. A function that may throw returns
  \<open>exn + 'a\<close>, with \<open>Inl\<close> for the throw.
\<close>

datatype exn =
    StdException string
  | OtherException

text \<open>
  The program reads a member \<^verbatim>\<open>j[key]\<close> only under the guard \<^verbatim>\<open>j.contains(key)\<close>, which
  is false for every \<open>j\<close> that is not an object. Guard and read together are one lookup:
  \<open>Some\<close> of the member when \<open>j\<close> is an object that has it, \<open>None\<close> when the guard fails.
\<close>

fun lookup :: "json \<Rightarrow> string \<Rightarrow> json option" where
  "lookup (JObject members) key = map_of members key"
| "lookup _ key = None"

fun is_array :: "json \<Rightarrow> bool" where
  "is_array (JArray _) = True"
| "is_array _ = False"

fun is_object :: "json \<Rightarrow> bool" where
  "is_object (JObject _) = True"
| "is_object _ = False"

fun type_name :: "json \<Rightarrow> string" where
  "type_name JNull = ''null''"
| "type_name (JBool _) = ''boolean''"
| "type_name (JNumber _) = ''number''"
| "type_name (JString _) = ''string''"
| "type_name (JArray _) = ''array''"
| "type_name (JObject _) = ''object''"

text \<open>
  \<^verbatim>\<open>j.value(key, default)\<close> with a string default: the library throws \<^verbatim>\<open>type_error\<close> 306
  when \<open>j\<close> is not an object and \<^verbatim>\<open>type_error\<close> 302 when the member is there but is not
  a string.
\<close>

definition value_string :: "json \<Rightarrow> string \<Rightarrow> string \<Rightarrow> exn + string" where
  "value_string j key dflt =
     (case j of
        JObject members \<Rightarrow>
          (case map_of members key of
             None \<Rightarrow> Inr dflt
           | Some (JString s) \<Rightarrow> Inr s
           | Some v \<Rightarrow>
               Inl (StdException
                 (''[json.exception.type_error.302] type must be string, but is '' @ type_name v)))
      | _ \<Rightarrow>
          Inl (StdException
            (''[json.exception.type_error.306] cannot use value() with '' @ type_name j)))"

text \<open>
  What a range-based \<^verbatim>\<open>for\<close> over a value visits: the elements of an array, the member
  values of an object, nothing for null, and the value itself for any other value.
\<close>

fun items :: "json \<Rightarrow> json list" where
  "items (JArray xs) = xs"
| "items (JObject members) = map snd members"
| "items JNull = []"
| "items j = [j]"

section \<open>The handler registry\<close>

type_synonym ToolHandler = "json \<Rightarrow> exn + json"

text \<open>
  The two private maps of \<^verbatim>\<open>ToolRegistry\<close> (\<^verbatim>\<open>tools_\<close> and \<^verbatim>\<open>schemas_\<close> in the header).
  A handler is taken to be a function of its arguments.
\<close>

record ToolRegistry =
  tools :: "string \<rightharpoonup> ToolHandler"
  schemas :: "string \<rightharpoonup> json"

definition empty_registry :: ToolRegistry where
  "empty_registry = \<lparr>tools = Map.empty, schemas = Map.empty\<rparr>"

text \<open>\<^verbatim>\<open>std::map::emplace\<close>: the pair is inserted when the map has no element with that key.\<close>

definition emplace :: "('k \<rightharpoonup> 'v) \<Rightarrow> 'k \<Rightarrow> 'v \<Rightarrow> ('k \<rightharpoonup> 'v)" where
  "emplace m k v = (case m k of None \<Rightarrow> m(k \<mapsto> v) | Some _ \<Rightarrow> m)"

definition register_tool :: "ToolRegistry \<Rightarrow> string \<Rightarrow> ToolHandler \<Rightarrow> json \<Rightarrow> ToolRegistry" where
  "register_tool reg name handler schema =
     reg\<lparr>tools := emplace (tools reg) name handler,
         schemas := emplace (schemas reg) name schema\<rparr>"

definition invoke :: "ToolRegistry \<Rightarrow> string \<Rightarrow> json \<Rightarrow> exn + json" where
  "invoke reg name args =
     (case tools reg name of
        None \<Rightarrow> Inl (StdException (''Tool not found: '' @ name))
      | Some handler \<Rightarrow> handler args)"

record ExecutionResult =
  tool_name :: string
  arguments :: json
  result :: json
  error :: string

section \<open>Call discovery\<close>

text \<open>
  \<^verbatim>\<open>json::parse\<close> belongs to the JSON library, not to this program: every function that
  calls it takes the parser as its first argument \<open>parse\<close>.
\<close>

type_synonym parser = "string \<Rightarrow> exn + json"

definition parse_function_arguments :: "parser \<Rightarrow> json \<Rightarrow> json" where
  "parse_function_arguments parse func =
     (case lookup func ''arguments'' of
        None \<Rightarrow> JObject []
      | Some a \<Rightarrow>
          (case a of
             JString s \<Rightarrow> (case parse s of Inr v \<Rightarrow> v | Inl _ \<Rightarrow> JObject [])
           | JObject _ \<Rightarrow> a
           | JArray _ \<Rightarrow> a
           | _ \<Rightarrow> JObject []))"

type_synonym call = "string \<times> json"

text \<open>The loop over \<^verbatim>\<open>node["tool_calls"]\<close>; \<open>out\<close> is the vector the calls are appended to.\<close>

fun collect_list :: "parser \<Rightarrow> json list \<Rightarrow> call list \<Rightarrow> exn + call list" where
  "collect_list parse [] out = Inr out"
| "collect_list parse (tc # tcs) out =
     (let func = (case lookup tc ''function'' of Some f \<Rightarrow> f | None \<Rightarrow> tc)
      in case value_string func ''name'' '''' of
           Inl e \<Rightarrow> Inl e
         | Inr name \<Rightarrow>
             collect_list parse tcs
               (if name \<noteq> '''' then out @ [(name, parse_function_arguments parse func)] else out))"

text \<open>The second block of \<^verbatim>\<open>collect_tool_calls_from_node\<close>: the \<^verbatim>\<open>function_call\<close> member.\<close>

definition collect_singular :: "parser \<Rightarrow> json \<Rightarrow> call list \<Rightarrow> exn + call list" where
  "collect_singular parse node out =
     (case lookup node ''function_call'' of
        Some (JObject members) \<Rightarrow>
          (case value_string (JObject members) ''name'' '''' of
             Inl e \<Rightarrow> Inl e
           | Inr name \<Rightarrow>
               Inr (if name \<noteq> ''''
                    then out @ [(name, parse_function_arguments parse (JObject members))]
                    else out))
      | _ \<Rightarrow> Inr out)"

definition collect_tool_calls_from_node :: "parser \<Rightarrow> json \<Rightarrow> call list \<Rightarrow> exn + call list" where
  "collect_tool_calls_from_node parse node out =
     (case (case lookup node ''tool_calls'' of
              Some (JArray tcs) \<Rightarrow> collect_list parse tcs out
            | _ \<Rightarrow> Inr out) of
        Inl e \<Rightarrow> Inl e
      | Inr out' \<Rightarrow> collect_singular parse node out')"

definition pick_message_like :: "json \<Rightarrow> json" where
  "pick_message_like choice_or_msg =
     (case lookup choice_or_msg ''message'' of
        Some m \<Rightarrow> m
      | None \<Rightarrow>
          (case lookup choice_or_msg ''delta'' of
             Some d \<Rightarrow> d
           | None \<Rightarrow> choice_or_msg))"

section \<open>Dispatch\<close>

text \<open>
  The first half of \<^verbatim>\<open>process_remote_response_and_execute\<close>: the entries of the response,
  and the loop that collects the calls of every entry.
\<close>

definition normalize_entries :: "json \<Rightarrow> json" where
  "normalize_entries api_response =
     (case lookup api_response ''choices'' of
        Some choices \<Rightarrow> choices
      | None \<Rightarrow> if \<not> is_array api_response then JArray [api_response] else api_response)"

fun discover_loop :: "parser \<Rightarrow> json list \<Rightarrow> call list \<Rightarrow> exn + call list" where
  "discover_loop parse [] calls = Inr calls"
| "discover_loop parse (entry # entries) calls =
     (case collect_tool_calls_from_node parse (pick_message_like entry) calls of
        Inl e \<Rightarrow> Inl e
      | Inr calls' \<Rightarrow> discover_loop parse entries calls')"

definition discover :: "parser \<Rightarrow> json \<Rightarrow> exn + call list" where
  "discover parse api_response = discover_loop parse (items (normalize_entries api_response)) []"

text \<open>
  The body shared by the sequential loop and by the task of the concurrent path: the
  \<^verbatim>\<open>try\<close> block around \<^verbatim>\<open>invoke\<close> with its two \<^verbatim>\<open>catch\<close> clauses. A default-constructed
  \<^verbatim>\<open>json\<close> is null and a default-constructed string is empty.
\<close>

definition execute_call :: "ToolRegistry \<Rightarrow> string \<Rightarrow> json \<Rightarrow> ExecutionResult" where
  "execute_call reg name args =
     (let r = \<lparr>tool_name = name, arguments = args, result = JNull, error = ''''\<rparr>
      in case invoke reg name args of
           Inr v \<Rightarrow> r\<lparr>result := v\<rparr>
         | Inl (StdException what) \<Rightarrow> r\<lparr>error := what\<rparr>
         | Inl OtherException \<Rightarrow> r\<lparr>error := ''Unknown error invoking tool''\<rparr>)"

fun run_sequential :: "ToolRegistry \<Rightarrow> call list \<Rightarrow> ExecutionResult list \<Rightarrow> ExecutionResult list" where
  "run_sequential reg [] results = results"
| "run_sequential reg ((name, args) # calls) results =
     run_sequential reg calls (results @ [execute_call reg name args])"

text \<open>
  A \<^verbatim>\<open>std::future\<close> is the task whose value \<^verbatim>\<open>get\<close> waits for. Handlers being functions of
  their arguments, the value does not depend on when the task runs.
\<close>

datatype 'a future = Future "unit \<Rightarrow> 'a"

definition async :: "(unit \<Rightarrow> 'a) \<Rightarrow> 'a future" where
  "async task = Future task"

fun get :: "'a future \<Rightarrow> 'a" where
  "get (Future task) = task ()"

fun launch_all :: "ToolRegistry \<Rightarrow> call list \<Rightarrow> ExecutionResult future list \<Rightarrow> ExecutionResult future list" where
  "launch_all reg [] futs = futs"
| "launch_all reg ((name, args) # calls) futs =
     launch_all reg calls (futs @ [async (\<lambda>_. execute_call reg name args)])"

fun join_all :: "ExecutionResult future list \<Rightarrow> ExecutionResult list \<Rightarrow> ExecutionResult list" where
  "join_all [] results = results"
| "join_all (f # futs) results = join_all futs (results @ [get f])"

text \<open>The second half of \<^verbatim>\<open>process_remote_response_and_execute\<close>, on the discovered calls.\<close>

definition dispatch :: "ToolRegistry \<Rightarrow> bool \<Rightarrow> call list \<Rightarrow> ExecutionResult list" where
  "dispatch reg concurrent calls =
     (if \<not> concurrent then run_sequential reg calls []
      else join_all (launch_all reg calls []) [])"

definition process_remote_response_and_execute ::
    "parser \<Rightarrow> ToolRegistry \<Rightarrow> json \<Rightarrow> bool \<Rightarrow> exn + ExecutionResult list" where
  "process_remote_response_and_execute parse reg api_response concurrent =
     (case discover parse api_response of
        Inl e \<Rightarrow> Inl e
      | Inr calls \<Rightarrow> Inr (dispatch reg concurrent calls))"

section \<open>The streaming orchestrator\<close>

text \<open>
  The chunk source is given by the chunks it hands over before it returns \<^verbatim>\<open>false\<close>. The
  outcome sink \<^verbatim>\<open>on_result\<close> is represented by the list of the outcomes it has received,
  \<open>delivered\<close>, and is taken not to throw. \<open>dispatched\<close> is a history variable: the parsed
  values on which \<^verbatim>\<open>process_remote_response_and_execute\<close> has been called so far.
\<close>

record stream_state =
  delivered :: "ExecutionResult list"
  dispatched :: "json list"

text \<open>The \<^verbatim>\<open>try\<close> block run on one extracted text; \<^verbatim>\<open>catch (...)\<close> swallows every throw.\<close>

definition handle_blob :: "parser \<Rightarrow> ToolRegistry \<Rightarrow> bool \<Rightarrow> string \<Rightarrow> stream_state \<Rightarrow> stream_state" where
  "handle_blob parse reg concurrent s st =
     (case parse s of
        Inl _ \<Rightarrow> st
      | Inr obj \<Rightarrow>
          (case process_remote_response_and_execute parse reg obj concurrent of
             Inl _ \<Rightarrow> st\<lparr>dispatched := dispatched st @ [obj]\<rparr>
           | Inr batch \<Rightarrow>
               st\<lparr>delivered := delivered st @ batch, dispatched := dispatched st @ [obj]\<rparr>))"

fun handle_blobs :: "parser \<Rightarrow> ToolRegistry \<Rightarrow> bool \<Rightarrow> string list \<Rightarrow> stream_state \<Rightarrow> stream_state" where
  "handle_blobs parse reg concurrent [] st = st"
| "handle_blobs parse reg concurrent (s # blobs) st =
     handle_blobs parse reg concurrent blobs (handle_blob parse reg concurrent s st)"

text \<open>
  The \<^verbatim>\<open>while (true)\<close> loop, one chunk per pass, and the final flush once the source is
  exhausted.
\<close>

fun stream_loop ::
    "parser \<Rightarrow> ToolRegistry \<Rightarrow> bool \<Rightarrow> string list \<Rightarrow> string \<Rightarrow> stream_state \<Rightarrow> stream_state" where
  "stream_loop parse reg concurrent [] buffer st =
     (case extract_complete_json_values buffer of
        (final_blobs, buffer') \<Rightarrow> handle_blobs parse reg concurrent final_blobs st)"
| "stream_loop parse reg concurrent (chunk # chunks) buffer st =
     (case extract_complete_json_values (buffer @ chunk) of
        (json_blobs, buffer') \<Rightarrow>
          stream_loop parse reg concurrent chunks buffer'
            (handle_blobs parse reg concurrent json_blobs st))"

definition process_streaming_response_and_execute ::
    "parser \<Rightarrow> ToolRegistry \<Rightarrow> string list \<Rightarrow> bool \<Rightarrow> stream_state" where
  "process_streaming_response_and_execute parse reg chunks concurrent =
     stream_loop parse reg concurrent chunks [] \<lparr>delivered = [], dispatched = []\<rparr>"

section \<open>The direct single-response path\<close>

text \<open>
  The statements run on the first element of a \<^verbatim>\<open>tool_calls\<close> array that has a
  \<^verbatim>\<open>function\<close> member \<open>func\<close>, up to the \<^verbatim>\<open>return\<close>.
\<close>

definition call_function :: "parser \<Rightarrow> ToolRegistry \<Rightarrow> json \<Rightarrow> exn + json" where
  "call_function parse reg func =
     (case value_string func ''name'' '''' of
        Inl e \<Rightarrow> Inl e
      | Inr name \<Rightarrow>
          (case value_string func ''arguments'' ''{}'' of
             Inl e \<Rightarrow> Inl e
           | Inr args_str \<Rightarrow>
               (case parse args_str of
                  Inl e \<Rightarrow> Inl e
                | Inr args \<Rightarrow> invoke reg name args)))"

text \<open>The inner loop: \<open>None\<close> when it ends without having returned or thrown.\<close>

fun scan_tool_calls :: "parser \<Rightarrow> ToolRegistry \<Rightarrow> json list \<Rightarrow> (exn + json) option" where
  "scan_tool_calls parse reg [] = None"
| "scan_tool_calls parse reg (tc # tcs) =
     (case lookup tc ''function'' of
        None \<Rightarrow> scan_tool_calls parse reg tcs
      | Some func \<Rightarrow> Some (call_function parse reg func))"

text \<open>
  The outer loop and the final \<^verbatim>\<open>throw\<close>. The source tests \<^verbatim>\<open>choice.contains("message")\<close>
  twice in a row; the second test can never succeed where the first one failed.
\<close>

fun scan_choices :: "parser \<Rightarrow> ToolRegistry \<Rightarrow> json list \<Rightarrow> exn + json" where
  "scan_choices parse reg [] = Inl (StdException ''No tool call found in response'')"
| "scan_choices parse reg (choice # choices) =
     (case lookup choice ''message'' of
        None \<Rightarrow> scan_choices parse reg choices
      | Some message \<Rightarrow>
          (case lookup message ''tool_calls'' of
             Some (JArray tcs) \<Rightarrow>
               (case scan_tool_calls parse reg tcs of
                  Some r \<Rightarrow> r
                | None \<Rightarrow> scan_choices parse reg choices)
           | _ \<Rightarrow> scan_choices parse reg choices))"

definition direct_entries :: "json \<Rightarrow> json" where
  "direct_entries api_response =
     (if is_object api_response then
        (case lookup api_response ''choices'' of
           Some choices \<Rightarrow> choices
         | None \<Rightarrow> JArray [api_response])
      else api_response)"

definition handle_tool_call_response :: "parser \<Rightarrow> ToolRegistry \<Rightarrow> json \<Rightarrow> exn + json" where
  "handle_tool_call_response parse reg api_response =
     scan_choices parse reg (items (direct_entries api_response))"

text \<open>
  The same path with a history variable: next to what the function returns or throws, the
  list of the handler calls it has made (\<^verbatim>\<open>it->second(args)\<close> in \<^verbatim>\<open>invoke\<close>), each with the
  name and the arguments of the call.
\<close>

definition invoke_logged :: "ToolRegistry \<Rightarrow> string \<Rightarrow> json \<Rightarrow> (exn + json) \<times> call list" where
  "invoke_logged reg name args =
     (case tools reg name of
        None \<Rightarrow> (Inl (StdException (''Tool not found: '' @ name)), [])
      | Some handler \<Rightarrow> (handler args, [(name, args)]))"

definition call_function_logged ::
    "parser \<Rightarrow> ToolRegistry \<Rightarrow> json \<Rightarrow> (exn + json) \<times> call list" where
  "call_function_logged parse reg func =
     (case value_string func ''name'' '''' of
        Inl e \<Rightarrow> (Inl e, [])
      | Inr name \<Rightarrow>
          (case value_string func ''arguments'' ''{}'' of
             Inl e \<Rightarrow> (Inl e, [])
           | Inr args_str \<Rightarrow>
               (case parse args_str of
                  Inl e \<Rightarrow> (Inl e, [])
                | Inr args \<Rightarrow> invoke_logged reg name args)))"

fun scan_tool_calls_logged ::
    "parser \<Rightarrow> ToolRegistry \<Rightarrow> json list \<Rightarrow> ((exn + json) \<times> call list) option" where
  "scan_tool_calls_logged parse reg [] = None"
| "scan_tool_calls_logged parse reg (tc # tcs) =
     (case lookup tc ''function'' of
        None \<Rightarrow> scan_tool_calls_logged parse reg tcs
      | Some func \<Rightarrow> Some (call_function_logged parse reg func))"

fun scan_choices_logged ::
    "parser \<Rightarrow> ToolRegistry \<Rightarrow> json list \<Rightarrow> (exn + json) \<times> call list" where
  "scan_choices_logged parse reg [] = (Inl (StdException ''No tool call found in response''), [])"
| "scan_choices_logged parse reg (choice # choices) =
     (case lookup choice ''message'' of
        None \<Rightarrow> scan_choices_logged parse reg choices
      | Some message \<Rightarrow>
          (case lookup message ''tool_calls'' of
             Some (JArray tcs) \<Rightarrow>
               (case scan_tool_calls_logged parse reg tcs of
                  Some r \<Rightarrow> r
                | None \<Rightarrow> scan_choices_logged parse reg choices)
           | _ \<Rightarrow> scan_choices_logged parse reg choices))"

definition handle_tool_call_response_logged ::
    "parser \<Rightarrow> ToolRegistry \<Rightarrow> json \<Rightarrow> (exn + json) \<times> call list" where
  "handle_tool_call_response_logged parse reg api_response =
     scan_choices_logged parse reg (items (direct_entries api_response))"

section \<open>A parser for the examples\<close>

text \<open>
  The examples need a parser to run. \<open>sample_parse e known\<close> returns the listed value for a
  listed text and throws \<open>e\<close> on every other text. Each example lists the well-formed texts
  it parses, with the value of each, and parses no other text but malformed ones.
\<close>

definition sample_parse :: "exn \<Rightarrow> (string \<times> json) list \<Rightarrow> parser" where
  "sample_parse e known s = (case map_of known s of Some j \<Rightarrow> Inr j | None \<Rightarrow> Inl e)"

section \<open>Notions used to state the properties\<close>

subsection \<open>The extractor\<close>

text \<open>
  Two derived notions used to state the properties: the index of the first opener, and the
  outcome of one pass of the outer loop (the index of the closer that completes the first
  value, if the buffer holds one).
\<close>

definition opener_index :: "string \<Rightarrow> nat" where
  "opener_index buffer = length (takeWhile (\<lambda>c. \<not> is_opener c) buffer)"

definition closer_of :: "char \<Rightarrow> char" where
  "closer_of opener = (if opener = CHR ''{'' then CHR ''}'' else CHR '']'')"

definition find_close :: "string \<Rightarrow> nat option" where
  "find_close buffer =
     (if opener_index buffer \<ge> length buffer then None
      else scan_value (buffer ! opener_index buffer) (closer_of (buffer ! opener_index buffer))
             scan_init (drop (opener_index buffer) buffer) (opener_index buffer))"

definition value_text :: "string \<Rightarrow> nat \<Rightarrow> string" where
  "value_text buffer j = take (Suc j - opener_index buffer) (drop (opener_index buffer) buffer)"

text \<open>
  A caller that appends one byte at a time and calls the extractor after every byte:
  \<open>got\<close> collects what the calls return, in order.
\<close>

fun feed_bytes :: "string \<Rightarrow> string \<Rightarrow> string list \<Rightarrow> string list \<times> string" where
  "feed_bytes [] buffer got = (got, buffer)"
| "feed_bytes (c # cs) buffer got =
     (case extract_complete_json_values (buffer @ [c]) of
        (vs, buffer') \<Rightarrow> feed_bytes cs buffer' (got @ vs))"

text \<open>
  What a complete value is, said without the scanner. \<open>string_rest s rest\<close>: read from just
  behind an opening quote, \<open>s\<close> is the remainder of a string literal, up to and including
  its closing quote, followed by \<open>rest\<close>; a backslash takes the next character with it.
  \<open>value_rest opener closer s rest\<close>: read from just behind an opener, \<open>s\<close> is the
  remainder of a value, up to and including the closer that matches that opener, followed
  by \<open>rest\<close>; values of the same bracket family nest, string literals are passed over
  whole, and every other character is plain content. A complete value is an opener followed
  by the remainder of its value and nothing else.
\<close>

inductive string_rest :: "string \<Rightarrow> string \<Rightarrow> bool" where
  string_Close: "x = dquote \<Longrightarrow> string_rest (x # rest) rest"
| string_Plain: "x \<noteq> dquote \<Longrightarrow> x \<noteq> backslash \<Longrightarrow> string_rest s rest \<Longrightarrow> string_rest (x # s) rest"
| string_Escaped: "x = backslash \<Longrightarrow> string_rest s rest \<Longrightarrow> string_rest (x # y # s) rest"

code_pred string_rest .

inductive value_rest :: "char \<Rightarrow> char \<Rightarrow> string \<Rightarrow> string \<Rightarrow> bool"
  for opener closer where
  value_Close: "x = closer \<Longrightarrow> value_rest opener closer (x # rest) rest"
| value_Nested: "x = opener \<Longrightarrow> value_rest opener closer s mid \<Longrightarrow>
     value_rest opener closer mid rest \<Longrightarrow> value_rest opener closer (x # s) rest"
| value_Literal: "x = dquote \<Longrightarrow> string_rest s mid \<Longrightarrow>
     value_rest opener closer mid rest \<Longrightarrow> value_rest opener closer (x # s) rest"
| value_Other: "x \<noteq> dquote \<Longrightarrow> x \<noteq> opener \<Longrightarrow> x \<noteq> closer \<Longrightarrow>
     value_rest opener closer s rest \<Longrightarrow> value_rest opener closer (x # s) rest"

code_pred value_rest .

definition complete_value :: "string \<Rightarrow> bool" where
  "complete_value v =
     (case v of
        [] \<Rightarrow> False
      | x # s \<Rightarrow> is_opener x \<and> value_rest x (closer_of x) s [])"

text \<open>The depth the scanner holds after each character of a text, started in state \<open>st\<close>.\<close>

fun depth_trace :: "char \<Rightarrow> char \<Rightarrow> scan_state \<Rightarrow> string \<Rightarrow> int list" where
  "depth_trace opener closer st [] = []"
| "depth_trace opener closer st (x # s) =
     depth (fst (scan_step opener closer st x)) #
     depth_trace opener closer (fst (scan_step opener closer st x)) s"

text \<open>
  \<open>closes opener closer n s rest\<close>: read at nesting depth \<open>n\<close>, \<open>s\<close> closes all \<open>n\<close> open
  values one after the other and \<open>rest\<close> follows. It appears in no statement about the
  program; the proof that the scanner emits complete values only is an induction over it.
\<close>

fun closes :: "char \<Rightarrow> char \<Rightarrow> nat \<Rightarrow> string \<Rightarrow> string \<Rightarrow> bool" where
  "closes opener closer 0 s rest = (s = rest)"
| "closes opener closer (Suc n) s rest =
     (\<exists>mid. value_rest opener closer s mid \<and> closes opener closer n mid rest)"

subsection \<open>Discovery order\<close>

text \<open>
  The discovery order in the words of the specification: entries in their order; for each
  entry the calls of the \<^verbatim>\<open>tool_calls\<close> list in listed order, then the call of
  \<^verbatim>\<open>function_call\<close>. An element without a non-empty textual name stands for no call.
\<close>

definition name_of :: "json \<Rightarrow> string" where
  "name_of func = (case lookup func ''name'' of Some (JString s) \<Rightarrow> s | _ \<Rightarrow> '''')"

definition call_request :: "parser \<Rightarrow> json \<Rightarrow> call list" where
  "call_request parse func =
     (if name_of func = '''' then [] else [(name_of func, parse_function_arguments parse func)])"

definition list_convention :: "parser \<Rightarrow> json \<Rightarrow> call list" where
  "list_convention parse node =
     (case lookup node ''tool_calls'' of
        Some (JArray tcs) \<Rightarrow>
          concat (map (\<lambda>tc. call_request parse
                        (case lookup tc ''function'' of Some f \<Rightarrow> f | None \<Rightarrow> tc)) tcs)
      | _ \<Rightarrow> [])"

definition singular_convention :: "parser \<Rightarrow> json \<Rightarrow> call list" where
  "singular_convention parse node =
     (case lookup node ''function_call'' of
        Some (JObject members) \<Rightarrow> call_request parse (JObject members)
      | _ \<Rightarrow> [])"

definition discovery_order :: "parser \<Rightarrow> json \<Rightarrow> call list" where
  "discovery_order parse api_response =
     concat (map (\<lambda>entry. list_convention parse (pick_message_like entry) @
                          singular_convention parse (pick_message_like entry))
                 (items (normalize_entries api_response)))"

subsection \<open>The streaming orchestrator\<close>

text \<open>
  The texts a single extraction over the whole input completes, the values among them that
  parse, and the outcomes one of them gives rise to.
\<close>

definition completed_values :: "string list \<Rightarrow> string list" where
  "completed_values chunks = fst (extract_complete_json_values (concat chunks))"

definition parsed_values :: "parser \<Rightarrow> string list \<Rightarrow> json list" where
  "parsed_values parse blobs =
     concat (map (\<lambda>s. case parse s of Inr obj \<Rightarrow> [obj] | Inl _ \<Rightarrow> []) blobs)"

definition outcomes_of :: "parser \<Rightarrow> ToolRegistry \<Rightarrow> bool \<Rightarrow> string \<Rightarrow> ExecutionResult list" where
  "outcomes_of parse reg concurrent s =
     (case parse s of
        Inl _ \<Rightarrow> []
      | Inr obj \<Rightarrow>
          (case process_remote_response_and_execute parse reg obj concurrent of
             Inl _ \<Rightarrow> []
           | Inr batch \<Rightarrow> batch))"

subsection \<open>The direct single-response path\<close>

text \<open>
  The \<^verbatim>\<open>function\<close> members the direct path can reach: those of the elements of a
  \<^verbatim>\<open>tool_calls\<close> array under a \<^verbatim>\<open>message\<close> member, in the order of the entries and
  of the arrays.
\<close>

definition functions_of_tool_calls :: "json list \<Rightarrow> json list" where
  "functions_of_tool_calls tcs =
     concat (map (\<lambda>tc. case lookup tc ''function'' of Some func \<Rightarrow> [func] | None \<Rightarrow> []) tcs)"

definition functions_of_choice :: "json \<Rightarrow> json list" where
  "functions_of_choice choice =
     (case lookup choice ''message'' of
        None \<Rightarrow> []
      | Some message \<Rightarrow>
          (case lookup message ''tool_calls'' of
             Some (JArray tcs) \<Rightarrow> functions_of_tool_calls tcs
           | _ \<Rightarrow> []))"

definition direct_functions :: "json \<Rightarrow> json list" where
  "direct_functions api_response =
     concat (map functions_of_choice (items (direct_entries api_response)))"

definition no_tool_call :: exn where
  "no_tool_call = StdException ''No tool call found in response''"

definition first_message_entry :: "json \<Rightarrow> json option" where
  "first_message_entry api_response =
     find (\<lambda>choice. lookup choice ''message'' \<noteq> None) (items (direct_entries api_response))"

section \<open>Handlers, responses and streams for the examples\<close>

text \<open>
  Three handlers: \<^verbatim>\<open>echo\<close> returns its arguments under the key \<^verbatim>\<open>echoed\<close>, \<^verbatim>\<open>bad\<close>
  throws \<^verbatim>\<open>std::runtime_error("fail")\<close> as the handler of the program's tests does, and
  \<^verbatim>\<open>odd\<close> throws something that is no \<^verbatim>\<open>std::exception\<close>. The name \<^verbatim>\<open>ghost\<close> is never
  registered. Objects are written with their members in key order.
\<close>

definition const_handler :: "json \<Rightarrow> ToolHandler" where
  "const_handler v args = Inr v"

definition function_object :: "string \<Rightarrow> json \<Rightarrow> json" where
  "function_object name args = JObject [(''arguments'', args), (''name'', JString name)]"

definition echo_handler :: ToolHandler where
  "echo_handler args = Inr (JObject [(''echoed'', args)])"

definition bad_handler :: ToolHandler where
  "bad_handler args = Inl (StdException ''fail'')"

definition odd_handler :: ToolHandler where
  "odd_handler args = Inl OtherException"

definition sample_registry :: ToolRegistry where
  "sample_registry =
     register_tool
       (register_tool
          (register_tool empty_registry ''echo'' echo_handler JNull)
          ''bad'' bad_handler JNull)
       ''odd'' odd_handler JNull"

definition sample_parser :: parser where
  "sample_parser = sample_parse (StdException ''parse error'') [(''{}'', JObject [])]"

text \<open>
  A response with two entries. The first has a \<^verbatim>\<open>message\<close> with two \<^verbatim>\<open>tool_calls\<close>
  (\<^verbatim>\<open>bad\<close>, then \<^verbatim>\<open>echo\<close> with an array as arguments) and a \<^verbatim>\<open>function_call\<close> of
  \<^verbatim>\<open>ghost\<close>. The second has a \<^verbatim>\<open>delta\<close> whose \<^verbatim>\<open>tool_calls\<close> elements carry name and
  arguments themselves: \<^verbatim>\<open>odd\<close> with a number as arguments, and \<^verbatim>\<open>echo\<close> with the
  malformed arguments text \<^verbatim>\<open>{oops\<close>.
\<close>

definition sample_response :: json where
  "sample_response =
     JObject [(''choices'', JArray [
       JObject [(''message'', JObject [
         (''function_call'', function_object ''ghost'' (JString ''{}'')),
         (''tool_calls'', JArray [
            JObject [(''function'', function_object ''bad'' (JString ''{}''))],
            JObject [(''function'', function_object ''echo'' (JArray [JNumber 1]))]])])],
       JObject [(''delta'', JObject [
         (''tool_calls'', JArray [
            function_object ''odd'' (JNumber 7),
            function_object ''echo'' (JString ''{oops'')])])]])]"

text \<open>
  A stream: log noise, then one response cut into three chunks, then a completed text that
  is not a value, then the beginning of a value that is never closed.
\<close>

definition stream_text :: string where
  \<open>stream_text = ''{"tool_calls":[{"name":"echo","arguments":"{}"}]}''\<close>

definition stream_value :: json where
  "stream_value = JObject [(''tool_calls'', JArray [function_object ''echo'' (JString ''{}'')])]"

definition stream_parser :: parser where
  "stream_parser =
     sample_parse (StdException ''parse error'') [(stream_text, stream_value), (''{}'', JObject [])]"

definition stream_chunks :: "string list" where
  \<open>stream_chunks = [''log {"tool_ca'', ''lls":[{"name":"echo","argum'', ''ents":"{}"}]}{x} [1,'']\<close>

text \<open>
  Responses for the direct path: a call under \<^verbatim>\<open>delta\<close>; a call in the \<^verbatim>\<open>function_call\<close>
  convention; an entry without message followed by a message whose \<^verbatim>\<open>tool_calls\<close> hold an
  element without \<^verbatim>\<open>function\<close> member and then two calls; and a call whose arguments text
  is malformed.
\<close>

definition delta_response :: json where
  "delta_response =
     JObject [(''choices'', JArray [
       JObject [(''delta'', JObject [
         (''tool_calls'', JArray [
            JObject [(''function'', function_object ''echo'' (JString ''{}''))]])])]])]"

definition singular_response :: json where
  "singular_response =
     JObject [(''choices'', JArray [
       JObject [(''message'', JObject [
         (''function_call'', function_object ''echo'' (JString ''{}''))])]])]"

definition direct_response :: json where
  "direct_response =
     JObject [(''choices'', JArray [
       JObject [(''index'', JNumber 0)],
       JObject [(''message'', JObject [
         (''tool_calls'', JArray [
            JObject [(''id'', JString ''call_0'')],
            JObject [(''function'', function_object ''echo'' (JString ''{}''))],
            JObject [(''function'', function_object ''bad'' (JString ''{}''))]])])]])]"

definition bad_arguments_response :: json where
  "bad_arguments_response =
     JObject [(''choices'', JArray [
       JObject [(''message'', JObject [
         (''tool_calls'', JArray [
            JObject [(''function'', function_object ''echo'' (JString ''{oops''))]])])]])]"

text \<open>
  A response whose first entry has a message without calls and whose second entry has a
  message with two calls.
\<close>

definition later_message_response :: json where
  "later_message_response =
     JObject [(''choices'', JArray [
       JObject [(''message'', JObject [(''content'', JString ''hi'')])],
       JObject [(''message'', JObject [
         (''tool_calls'', JArray [
            JObject [(''function'', function_object ''echo'' (JString ''{}''))],
            JObject [(''function'', function_object ''bad'' (JString ''{}''))]])])]])]"

text \<open>
  The remainder of a string literal that holds a closer, an escaped quote, a bracket of the
  other family and an opener, and a nested object whose inner member is that literal.
\<close>

definition escaped_literal_rest :: string where
  \<open>escaped_literal_rest = ''}'' @ [backslash] @ ''"]{"''\<close>

definition nested_value :: string where
  \<open>nested_value = ''{"a":{"b":"'' @ escaped_literal_rest @ ''}}''\<close>

section \<open>Properties of the extractor\<close>

lemma scan_value_bounds:
  "scan_value opener closer st cs i = Some j \<Longrightarrow> i \<le> j \<and> j < i + length cs"
proof (induction cs arbitrary: st i)
  case Nil
  then show ?case by simp
next
  case (Cons c cs)
  obtain st' closed where step: "scan_step opener closer st c = (st', closed)"
    by (cases "scan_step opener closer st c")
  show ?case
  proof (cases closed)
    case True
    with Cons.prems step show ?thesis by simp
  next
    case False
    with Cons.prems step have "scan_value opener closer st' cs (Suc i) = Some j" by simp
    from Cons.IH [OF this] show ?thesis by simp
  qed
qed

lemma scan_value_append:
  "scan_value opener closer st cs i = Some j \<Longrightarrow>
   scan_value opener closer st (cs @ ds) i = Some j"
proof (induction cs arbitrary: st i)
  case Nil
  then show ?case by simp
next
  case (Cons c cs)
  obtain st' closed where step: "scan_step opener closer st c = (st', closed)"
    by (cases "scan_step opener closer st c")
  with Cons show ?case by (cases closed) simp_all
qed

lemma extract_loop_None:
  "find_close buffer = None \<Longrightarrow> extract_loop buffer out = (out, buffer)"
  by (simp add: extract_loop.simps [of buffer out] find_close_def opener_index_def
      closer_of_def Let_def split: if_splits)

lemma extract_loop_Some:
  "find_close buffer = Some j \<Longrightarrow>
   extract_loop buffer out = extract_loop (drop (Suc j) buffer) (out @ [value_text buffer j])"
  by (simp add: extract_loop.simps [of buffer out] find_close_def opener_index_def
      closer_of_def value_text_def Let_def split: if_splits)

lemma find_close_bounds:
  "find_close buffer = Some j \<Longrightarrow> opener_index buffer \<le> j \<and> j < length buffer"
  by (auto simp: find_close_def split: if_splits dest!: scan_value_bounds)

lemma opener_index_append:
  "opener_index b < length b \<Longrightarrow> opener_index (b @ c) = opener_index b"
proof -
  assume "opener_index b < length b"
  then have "\<exists>x\<in>set b. \<not> \<not> is_opener x"
    unfolding opener_index_def
    by (metis (full_types) order_less_irrefl takeWhile_eq_all_conv)
  then obtain x where "x \<in> set b" "\<not> \<not> is_opener x" by blast
  then have "takeWhile (\<lambda>c. \<not> is_opener c) (b @ c) = takeWhile (\<lambda>c. \<not> is_opener c) b"
    by (rule takeWhile_append1)
  then show ?thesis
    unfolding opener_index_def by simp
qed

lemma find_close_append:
  assumes "find_close b = Some j"
  shows "find_close (b @ c) = Some j"
proof -
  let ?i = "opener_index b"
  from assms have lt: "?i < length b"
    by (simp add: find_close_def split: if_splits)
  have oi: "opener_index (b @ c) = ?i"
    using lt by (rule opener_index_append)
  have sc: "scan_value (b ! ?i) (closer_of (b ! ?i)) scan_init (drop ?i b) ?i = Some j"
    using assms lt by (simp add: find_close_def)
  have "scan_value (b ! ?i) (closer_of (b ! ?i)) scan_init (drop ?i b @ c) ?i = Some j"
    using sc by (rule scan_value_append)
  then show ?thesis
    using lt by (simp add: find_close_def oi nth_append)
qed

lemma value_text_append:
  assumes "find_close b = Some j"
  shows "value_text (b @ c) j = value_text b j"
proof -
  from assms have lt: "opener_index b < length b"
    by (simp add: find_close_def split: if_splits)
  from find_close_bounds [OF assms] have "j < length b" by simp
  then show ?thesis
    by (simp add: value_text_def opener_index_append [OF lt])
qed

lemma extract_loop_out:
  "extract_loop buffer out =
   (out @ fst (extract_loop buffer []), snd (extract_loop buffer []))"
proof (induction buffer arbitrary: out rule: length_induct)
  case (1 buffer)
  show ?case
  proof (cases "find_close buffer")
    case None
    then show ?thesis by (simp add: extract_loop_None)
  next
    case (Some j)
    let ?rest = "drop (Suc j) buffer"
    from find_close_bounds [OF Some] have "length ?rest < length buffer" by auto
    with 1 have ih: "\<And>acc. extract_loop ?rest acc =
        (acc @ fst (extract_loop ?rest []), snd (extract_loop ?rest []))"
      by blast
    show ?thesis
      by (simp add: extract_loop_Some [OF Some] ih [of "out @ [value_text buffer j]"]
          ih [of "[value_text buffer j]"])
  qed
qed

text \<open>Appending bytes after a pass and extracting again finds what one pass over the whole finds.\<close>

lemma extract_loop_append:
  "extract_loop (b @ c) [] =
   (fst (extract_loop b []) @ fst (extract_loop (snd (extract_loop b []) @ c) []),
    snd (extract_loop (snd (extract_loop b []) @ c) []))"
proof (induction b rule: length_induct)
  case (1 b)
  show ?case
  proof (cases "find_close b")
    case None
    then show ?thesis by (simp add: extract_loop_None)
  next
    case (Some j)
    let ?rest = "drop (Suc j) b"
    from find_close_bounds [OF Some] have j: "j < length b" by simp
    then have "length ?rest < length b" by simp
    with 1 have ih: "extract_loop (?rest @ c) [] =
        (fst (extract_loop ?rest []) @ fst (extract_loop (snd (extract_loop ?rest []) @ c) []),
         snd (extract_loop (snd (extract_loop ?rest []) @ c) []))"
      by blast
    have whole: "extract_loop (b @ c) [] = extract_loop (?rest @ c) [value_text b j]"
      using j by (simp add: extract_loop_Some [OF find_close_append [OF Some]]
          value_text_append [OF Some])
    have part: "extract_loop b [] = extract_loop ?rest [value_text b j]"
      by (simp add: extract_loop_Some [OF Some])
    have whole': "extract_loop (b @ c) [] =
        (value_text b j # fst (extract_loop (?rest @ c) []), snd (extract_loop (?rest @ c) []))"
      unfolding whole by (subst extract_loop_out) simp
    have part': "extract_loop b [] =
        (value_text b j # fst (extract_loop ?rest []), snd (extract_loop ?rest []))"
      unfolding part by (subst extract_loop_out) simp
    show ?thesis
      unfolding whole' part' by (simp add: ih)
  qed
qed

lemma extract_loop_idem:
  "extract_loop (snd (extract_loop b out)) [] = ([], snd (extract_loop b out))"
proof (induction b arbitrary: out rule: length_induct)
  case (1 b)
  show ?case
  proof (cases "find_close b")
    case None
    then show ?thesis by (simp add: extract_loop_None)
  next
    case (Some j)
    from find_close_bounds [OF Some] have "length (drop (Suc j) b) < length b" by auto
    with 1 show ?thesis
      by (simp add: extract_loop_Some [OF Some])
  qed
qed

lemma find_close_noise:
  "\<forall>c\<in>set buffer. \<not> is_opener c \<Longrightarrow> find_close buffer = None"
proof -
  assume "\<forall>c\<in>set buffer. \<not> is_opener c"
  then have "opener_index buffer = length buffer"
    unfolding opener_index_def by (induction buffer) auto
  then show ?thesis
    by (simp add: find_close_def)
qed

lemma extract_first:
  assumes "find_close b = Some j"
  shows "b = take (opener_index b) b @ value_text b j @ drop (Suc j) b"
    and "\<forall>c\<in>set (take (opener_index b) b). \<not> is_opener c"
    and "extract_loop b [] =
         (value_text b j # fst (extract_loop (drop (Suc j) b) []),
          snd (extract_loop (drop (Suc j) b) []))"
proof -
  from find_close_bounds [OF assms] have le: "opener_index b \<le> j" and lt: "j < length b"
    by simp_all
  have "take (Suc j - opener_index b) (drop (opener_index b) b) @ drop (Suc j) b =
        drop (opener_index b) b"
  proof -
    have "drop (Suc j) b = drop (Suc j - opener_index b) (drop (opener_index b) b)"
      using le by simp
    then show ?thesis
      by (simp only: append_take_drop_id)
  qed
  then show "b = take (opener_index b) b @ value_text b j @ drop (Suc j) b"
    by (simp add: value_text_def)
  have "take (opener_index b) b = takeWhile (\<lambda>c. \<not> is_opener c) b"
    unfolding opener_index_def by (rule takeWhile_eq_take [symmetric])
  then show "\<forall>c\<in>set (take (opener_index b) b). \<not> is_opener c"
    by (auto dest: set_takeWhileD)
  show "extract_loop b [] =
         (value_text b j # fst (extract_loop (drop (Suc j) b) []),
          snd (extract_loop (drop (Suc j) b) []))"
    unfolding extract_loop_Some [OF assms] by (subst extract_loop_out) simp
qed

lemma extract_append:
  "extract_complete_json_values (b @ c) =
   (fst (extract_complete_json_values b) @
      fst (extract_complete_json_values (snd (extract_complete_json_values b) @ c)),
    snd (extract_complete_json_values (snd (extract_complete_json_values b) @ c)))"
  unfolding extract_complete_json_values_def by (rule extract_loop_append)

lemma extract_idem:
  "extract_complete_json_values (snd (extract_complete_json_values b)) =
     ([], snd (extract_complete_json_values b))"
  unfolding extract_complete_json_values_def by (rule extract_loop_idem)

lemma extract_Nil: "extract_complete_json_values [] = ([], [])"
  by (simp add: extract_complete_json_values_def extract_loop.simps)

lemma feed_bytes_extract:
  "extract_complete_json_values buffer = ([], buffer) \<Longrightarrow>
   feed_bytes cs buffer got =
     (got @ fst (extract_complete_json_values (buffer @ cs)),
      snd (extract_complete_json_values (buffer @ cs)))"
proof (induction cs arbitrary: buffer got)
  case Nil
  then show ?case by simp
next
  case (Cons c cs)
  obtain vs b' where step: "extract_complete_json_values (buffer @ [c]) = (vs, b')"
    by (cases "extract_complete_json_values (buffer @ [c])")
  have fixed: "extract_complete_json_values b' = ([], b')"
    using extract_idem [of "buffer @ [c]"] step by simp
  have "extract_complete_json_values ((buffer @ [c]) @ cs) =
      (vs @ fst (extract_complete_json_values (b' @ cs)),
       snd (extract_complete_json_values (b' @ cs)))"
    by (subst extract_append) (simp add: step)
  then show ?case
    by (simp add: step Cons.IH [OF fixed])
qed

lemma opener_facts:
  "is_opener opener \<Longrightarrow>
   opener \<noteq> dquote \<and> closer_of opener \<noteq> dquote \<and> closer_of opener \<noteq> opener"
  by (auto simp: is_opener_def closer_of_def dquote_def)

lemma string_rest_scan:
  "string_rest s rest \<Longrightarrow>
   \<exists>lit. s = lit @ rest \<and> lit \<noteq> [] \<and> (\<forall>tail. string_rest (lit @ tail) tail) \<and>
     (\<forall>d i tail.
        scan_value opener closer \<lparr>depth = d, in_string = True, escape = False\<rparr> (lit @ tail) i =
        scan_value opener closer \<lparr>depth = d, in_string = False, escape = False\<rparr> tail
          (i + length lit)) \<and>
     (\<forall>d. \<forall>k\<in>set (depth_trace opener closer
                 \<lparr>depth = d, in_string = True, escape = False\<rparr> lit). k = d)"
proof (induction rule: string_rest.induct)
  case (string_Close x rest)
  show ?case
    by (rule exI [of _ "[x]"])
       (simp add: string_Close scan_step_def string_rest.string_Close dquote_def backslash_def)
next
  case (string_Plain x s rest)
  then obtain lit where lit: "s = lit @ rest" "lit \<noteq> []" "\<forall>tail. string_rest (lit @ tail) tail"
    "\<forall>d i tail.
        scan_value opener closer \<lparr>depth = d, in_string = True, escape = False\<rparr> (lit @ tail) i =
        scan_value opener closer \<lparr>depth = d, in_string = False, escape = False\<rparr> tail
          (i + length lit)"
    "\<forall>d. \<forall>k\<in>set (depth_trace opener closer
                 \<lparr>depth = d, in_string = True, escape = False\<rparr> lit). k = d"
    by blast
  show ?case
    using string_Plain.hyps(1,2) lit
    by (intro exI [of _ "x # lit"]) (simp add: scan_step_def string_rest.string_Plain)
next
  case (string_Escaped x s rest y)
  then obtain lit where lit: "s = lit @ rest" "lit \<noteq> []" "\<forall>tail. string_rest (lit @ tail) tail"
    "\<forall>d i tail.
        scan_value opener closer \<lparr>depth = d, in_string = True, escape = False\<rparr> (lit @ tail) i =
        scan_value opener closer \<lparr>depth = d, in_string = False, escape = False\<rparr> tail
          (i + length lit)"
    "\<forall>d. \<forall>k\<in>set (depth_trace opener closer
                 \<lparr>depth = d, in_string = True, escape = False\<rparr> lit). k = d"
    by blast
  show ?case
    using string_Escaped.hyps(1) lit
    by (intro exI [of _ "x # y # lit"]) (simp add: scan_step_def string_rest.string_Escaped)
qed

lemma value_rest_scan:
  assumes op: "is_opener opener" and cl: "closer = closer_of opener"
  shows "value_rest opener closer s rest \<Longrightarrow>
   \<exists>body. s = body @ rest \<and> body \<noteq> [] \<and> (\<forall>tail. value_rest opener closer (body @ tail) tail) \<and>
     (\<forall>d i tail. 1 \<le> d \<longrightarrow>
        scan_value opener closer \<lparr>depth = d, in_string = False, escape = False\<rparr> (body @ tail) i =
        (if d = 1 then Some (i + length body - 1)
         else scan_value opener closer \<lparr>depth = d - 1, in_string = False, escape = False\<rparr> tail
                (i + length body)))"
proof (induction rule: value_rest.induct)
  case (value_Close x rest)
  from opener_facts [OF op] cl value_Close have "x \<noteq> dquote" "x \<noteq> opener" by auto
  then show ?case
    using value_Close
    by (intro exI [of _ "[x]"]) (simp add: scan_step_def value_rest.value_Close)
next
  case (value_Nested x s mid rest)
  from value_Nested.IH(1) obtain b1 where b1: "s = b1 @ mid" "b1 \<noteq> []"
    "\<forall>tail. value_rest opener closer (b1 @ tail) tail"
    "\<forall>d i tail. 1 \<le> d \<longrightarrow>
        scan_value opener closer \<lparr>depth = d, in_string = False, escape = False\<rparr> (b1 @ tail) i =
        (if d = 1 then Some (i + length b1 - 1)
         else scan_value opener closer \<lparr>depth = d - 1, in_string = False, escape = False\<rparr> tail
                (i + length b1))"
    by blast
  from value_Nested.IH(2) obtain b2 where b2: "mid = b2 @ rest" "b2 \<noteq> []"
    "\<forall>tail. value_rest opener closer (b2 @ tail) tail"
    "\<forall>d i tail. 1 \<le> d \<longrightarrow>
        scan_value opener closer \<lparr>depth = d, in_string = False, escape = False\<rparr> (b2 @ tail) i =
        (if d = 1 then Some (i + length b2 - 1)
         else scan_value opener closer \<lparr>depth = d - 1, in_string = False, escape = False\<rparr> tail
                (i + length b2))"
    by blast
  from opener_facts [OF op] value_Nested.hyps(1) have x: "x \<noteq> dquote" "x = opener" by auto
  have tails: "\<forall>tail. value_rest opener closer ((x # b1 @ b2) @ tail) tail"
  proof
    fix tail
    have "value_rest opener closer (b1 @ b2 @ tail) (b2 @ tail)" using b1(3) by blast
    moreover have "value_rest opener closer (b2 @ tail) tail" using b2(3) by blast
    ultimately show "value_rest opener closer ((x # b1 @ b2) @ tail) tail"
      using x(2) by (simp add: value_rest.value_Nested)
  qed
  have scan: "\<forall>d i tail. 1 \<le> d \<longrightarrow>
        scan_value opener closer \<lparr>depth = d, in_string = False, escape = False\<rparr>
          ((x # b1 @ b2) @ tail) i =
        (if d = 1 then Some (i + length (x # b1 @ b2) - 1)
         else scan_value opener closer \<lparr>depth = d - 1, in_string = False, escape = False\<rparr> tail
                (i + length (x # b1 @ b2)))"
  proof (intro allI impI)
    fix d :: int and i tail
    assume d: "1 \<le> d"
    have "scan_value opener closer \<lparr>depth = d, in_string = False, escape = False\<rparr>
          ((x # b1 @ b2) @ tail) i =
        scan_value opener closer \<lparr>depth = d + 1, in_string = False, escape = False\<rparr>
          (b1 @ (b2 @ tail)) (Suc i)"
      using x by (simp add: scan_step_def)
    also have "\<dots> = scan_value opener closer \<lparr>depth = d, in_string = False, escape = False\<rparr>
          (b2 @ tail) (Suc i + length b1)"
      using b1(4) [rule_format, of "d + 1" "b2 @ tail" "Suc i"] d by simp
    also have "\<dots> = (if d = 1 then Some (Suc i + length b1 + length b2 - 1)
         else scan_value opener closer \<lparr>depth = d - 1, in_string = False, escape = False\<rparr> tail
                (Suc i + length b1 + length b2))"
      using b2(4) [rule_format, of d tail "Suc i + length b1"] d by simp
    finally show "scan_value opener closer \<lparr>depth = d, in_string = False, escape = False\<rparr>
          ((x # b1 @ b2) @ tail) i =
        (if d = 1 then Some (i + length (x # b1 @ b2) - 1)
         else scan_value opener closer \<lparr>depth = d - 1, in_string = False, escape = False\<rparr> tail
                (i + length (x # b1 @ b2)))"
      by (simp add: add.assoc del: scan_value.simps)
  qed
  show ?case
    using b1(1) b2(1) tails scan by (intro exI [of _ "x # b1 @ b2"]) simp
next
  case (value_Literal x s mid rest)
  from string_rest_scan [OF value_Literal.hyps(2), of opener closer]
  obtain lit where lit: "s = lit @ mid" "lit \<noteq> []" "\<forall>tail. string_rest (lit @ tail) tail"
    "\<forall>d i tail.
        scan_value opener closer \<lparr>depth = d, in_string = True, escape = False\<rparr> (lit @ tail) i =
        scan_value opener closer \<lparr>depth = d, in_string = False, escape = False\<rparr> tail
          (i + length lit)"
    by blast
  from value_Literal.IH obtain b2 where b2: "mid = b2 @ rest" "b2 \<noteq> []"
    "\<forall>tail. value_rest opener closer (b2 @ tail) tail"
    "\<forall>d i tail. 1 \<le> d \<longrightarrow>
        scan_value opener closer \<lparr>depth = d, in_string = False, escape = False\<rparr> (b2 @ tail) i =
        (if d = 1 then Some (i + length b2 - 1)
         else scan_value opener closer \<lparr>depth = d - 1, in_string = False, escape = False\<rparr> tail
                (i + length b2))"
    by blast
  have tails: "\<forall>tail. value_rest opener closer ((x # lit @ b2) @ tail) tail"
  proof
    fix tail
    have "string_rest (lit @ b2 @ tail) (b2 @ tail)" using lit(3) by blast
    moreover have "value_rest opener closer (b2 @ tail) tail" using b2(3) by blast
    ultimately show "value_rest opener closer ((x # lit @ b2) @ tail) tail"
      using value_Literal.hyps(1) by (simp add: value_rest.value_Literal)
  qed
  have scan: "\<forall>d i tail. 1 \<le> d \<longrightarrow>
        scan_value opener closer \<lparr>depth = d, in_string = False, escape = False\<rparr>
          ((x # lit @ b2) @ tail) i =
        (if d = 1 then Some (i + length (x # lit @ b2) - 1)
         else scan_value opener closer \<lparr>depth = d - 1, in_string = False, escape = False\<rparr> tail
                (i + length (x # lit @ b2)))"
  proof (intro allI impI)
    fix d :: int and i tail
    assume d: "1 \<le> d"
    have "scan_value opener closer \<lparr>depth = d, in_string = False, escape = False\<rparr>
          ((x # lit @ b2) @ tail) i =
        scan_value opener closer \<lparr>depth = d, in_string = True, escape = False\<rparr>
          (lit @ (b2 @ tail)) (Suc i)"
      using value_Literal.hyps(1) by (simp add: scan_step_def)
    also have "\<dots> = scan_value opener closer \<lparr>depth = d, in_string = False, escape = False\<rparr>
          (b2 @ tail) (Suc i + length lit)"
      using lit(4) by blast
    also have "\<dots> = (if d = 1 then Some (Suc i + length lit + length b2 - 1)
         else scan_value opener closer \<lparr>depth = d - 1, in_string = False, escape = False\<rparr> tail
                (Suc i + length lit + length b2))"
      using b2(4) [rule_format, of d tail "Suc i + length lit"] d by simp
    finally show "scan_value opener closer \<lparr>depth = d, in_string = False, escape = False\<rparr>
          ((x # lit @ b2) @ tail) i =
        (if d = 1 then Some (i + length (x # lit @ b2) - 1)
         else scan_value opener closer \<lparr>depth = d - 1, in_string = False, escape = False\<rparr> tail
                (i + length (x # lit @ b2)))"
      by (simp add: add.assoc del: scan_value.simps)
  qed
  show ?case
    using lit(1) b2(1) tails scan by (intro exI [of _ "x # lit @ b2"]) simp
next
  case (value_Other x s rest)
  from value_Other.IH obtain body where body: "s = body @ rest" "body \<noteq> []"
    "\<forall>tail. value_rest opener closer (body @ tail) tail"
    "\<forall>d i tail. 1 \<le> d \<longrightarrow>
        scan_value opener closer \<lparr>depth = d, in_string = False, escape = False\<rparr> (body @ tail) i =
        (if d = 1 then Some (i + length body - 1)
         else scan_value opener closer \<lparr>depth = d - 1, in_string = False, escape = False\<rparr> tail
                (i + length body))"
    by blast
  show ?case
    using value_Other.hyps(1,2,3) body
    by (intro exI [of _ "x # body"]) (simp add: scan_step_def value_rest.value_Other)
qed

lemma closes_Other:
  "x \<noteq> dquote \<Longrightarrow> x \<noteq> opener \<Longrightarrow> x \<noteq> closer \<Longrightarrow> closes opener closer (Suc n) s rest \<Longrightarrow>
   closes opener closer (Suc n) (x # s) rest"
  by (auto intro: value_rest.value_Other)

lemma closes_Literal:
  "string_rest s mid \<Longrightarrow> closes opener closer (Suc n) mid rest \<Longrightarrow>
   closes opener closer (Suc n) (dquote # s) rest"
  by (auto intro: value_rest.value_Literal)

lemma closes_Nested:
  "closes opener closer (Suc (Suc n)) s rest \<Longrightarrow> closes opener closer (Suc n) (opener # s) rest"
  by (auto intro: value_rest.value_Nested)

lemma closes_Close:
  "closes opener closer n s rest \<Longrightarrow> closes opener closer (Suc n) (closer # s) rest"
  by (auto intro: value_rest.value_Close)

lemma scan_value_sound:
  assumes op: "is_opener opener" and cl: "closer = closer_of opener"
  shows "scan_value opener closer st cs i = Some j \<Longrightarrow> depth st = int (Suc n) \<Longrightarrow>
    (escape st \<longrightarrow> in_string st) \<Longrightarrow>
    (if in_string st then
       (if escape st then
          (\<exists>y cs' mid. cs = y # cs' \<and> string_rest cs' mid \<and>
             closes opener closer (Suc n) mid (drop (Suc j - i) cs))
        else (\<exists>mid. string_rest cs mid \<and> closes opener closer (Suc n) mid (drop (Suc j - i) cs)))
     else closes opener closer (Suc n) cs (drop (Suc j - i) cs))"
proof (induction cs arbitrary: st i n)
  case Nil
  then show ?case by simp
next
  case (Cons x cs)
  note facts = opener_facts [OF op]
  obtain st' closed where step: "scan_step opener closer st x = (st', closed)"
    by (cases "scan_step opener closer st x")
  show ?case
  proof (cases closed)
    case True
    with step Cons.prems have j: "j = i" by simp
    from True step Cons.prems(2) have "\<not> in_string st \<and> x = closer \<and> n = 0"
      by (auto simp: scan_step_def Let_def split: if_splits)
    then show ?thesis
      using j by (auto intro: value_rest.value_Close)
  next
    case False
    with step Cons.prems have rec: "scan_value opener closer st' cs (Suc i) = Some j" by simp
    from scan_value_bounds [OF rec] have le: "Suc i \<le> j" by simp
    then have dr: "drop (Suc j - i) (x # cs) = drop (Suc j - Suc i) cs"
      by (simp add: Suc_diff_le)
    show ?thesis
    proof (cases "in_string st")
      case True
      note instr = this
      show ?thesis
      proof (cases "escape st")
        case True
        with instr step have st': "st' = st\<lparr>escape := False\<rparr>"
          by (simp add: scan_step_def)
        from Cons.IH [OF rec, of n] Cons.prems(2) instr st'
        have "\<exists>mid. string_rest cs mid \<and> closes opener closer (Suc n) mid (drop (Suc j - Suc i) cs)"
          by simp
        with instr True dr show ?thesis by simp
      next
        case False
        note noesc = this
        consider (bs) "x = backslash" | (dq) "x \<noteq> backslash" "x = dquote"
          | (plain) "x \<noteq> backslash" "x \<noteq> dquote" by blast
        then show ?thesis
        proof cases
          case bs
          with instr noesc step have st': "st' = st\<lparr>escape := True\<rparr>"
            by (simp add: scan_step_def)
          from Cons.IH [OF rec, of n] Cons.prems(2) instr st'
          obtain y cs' mid where "cs = y # cs'" "string_rest cs' mid"
            "closes opener closer (Suc n) mid (drop (Suc j - Suc i) cs)"
            by auto
          with bs have "string_rest (x # cs) mid \<and>
              closes opener closer (Suc n) mid (drop (Suc j - Suc i) cs)"
            by (auto intro: string_rest.string_Escaped)
          with instr noesc dr show ?thesis by auto
        next
          case dq
          with instr noesc step have st': "st' = st\<lparr>in_string := False\<rparr>"
            by (simp add: scan_step_def)
          from Cons.IH [OF rec, of n] Cons.prems(2) instr noesc st'
          have "closes opener closer (Suc n) cs (drop (Suc j - Suc i) cs)"
            by simp
          moreover from dq have "string_rest (x # cs) cs"
            by (auto intro: string_rest.string_Close)
          ultimately show ?thesis
            using instr noesc dr by auto
        next
          case plain
          with instr noesc step have st': "st' = st"
            by (simp add: scan_step_def)
          from Cons.IH [OF rec, of n] Cons.prems(2) instr noesc st'
          obtain mid where "string_rest cs mid"
            "closes opener closer (Suc n) mid (drop (Suc j - Suc i) cs)"
            by auto
          with plain have "string_rest (x # cs) mid \<and>
              closes opener closer (Suc n) mid (drop (Suc j - Suc i) cs)"
            by (auto intro: string_rest.string_Plain)
          with instr noesc dr show ?thesis by auto
        qed
      qed
    next
      case False
      note normal = this
      from normal Cons.prems(3) have noesc: "\<not> escape st" by simp
      consider (dq) "x = dquote" | (opn) "x \<noteq> dquote" "x = opener"
        | (cls) "x \<noteq> dquote" "x \<noteq> opener" "x = closer"
        | (other) "x \<noteq> dquote" "x \<noteq> opener" "x \<noteq> closer" by blast
      then show ?thesis
      proof cases
        case dq
        with normal step have st': "st' = st\<lparr>in_string := True\<rparr>"
          by (simp add: scan_step_def)
        from Cons.IH [OF rec, of n] Cons.prems(2) st' noesc
        obtain mid where "string_rest cs mid"
          "closes opener closer (Suc n) mid (drop (Suc j - Suc i) cs)"
          by auto
        from closes_Literal [OF this] dq normal dr show ?thesis by simp
      next
        case opn
        with normal step have st': "st' = st\<lparr>depth := depth st + 1\<rparr>"
          by (simp add: scan_step_def)
        from Cons.IH [OF rec, of "Suc n"] Cons.prems(2) normal noesc st'
        have "closes opener closer (Suc (Suc n)) cs (drop (Suc j - Suc i) cs)"
          by simp
        from closes_Nested [OF this] opn normal dr show ?thesis by simp
      next
        case cls
        with normal step \<open>\<not> closed\<close> have st': "st' = st\<lparr>depth := depth st - 1\<rparr>" and "depth st - 1 \<noteq> 0"
          by (auto simp: scan_step_def Let_def)
        with Cons.prems(2) obtain m where m: "n = Suc m" by (cases n) auto
        from Cons.IH [OF rec, of m] Cons.prems(2) normal noesc st' m
        have "closes opener closer (Suc m) cs (drop (Suc j - Suc i) cs)"
          by simp
        from closes_Close [OF this] cls m normal dr show ?thesis by simp
      next
        case other
        with normal step have st': "st' = st"
          by (simp add: scan_step_def)
        from Cons.IH [OF rec, of n] Cons.prems(2) normal noesc st'
        have "closes opener closer (Suc n) cs (drop (Suc j - Suc i) cs)"
          by simp
        from closes_Other [OF other this] normal dr show ?thesis by simp
      qed
    qed
  qed
qed

lemma opener_index_is_opener:
  "opener_index b < length b \<Longrightarrow> is_opener (b ! opener_index b)"
  unfolding opener_index_def
  using nth_length_takeWhile [of "\<lambda>c. \<not> is_opener c" b] by simp

lemma opener_index_noise:
  "\<forall>c\<in>set noise. \<not> is_opener c \<Longrightarrow> is_opener x \<Longrightarrow>
   opener_index (noise @ x # s) = length noise"
  unfolding opener_index_def by (simp add: takeWhile_append2)

lemma find_close_sound:
  assumes "find_close b = Some j"
  shows "complete_value (value_text b j)"
proof -
  let ?i = "opener_index b"
  let ?o = "b ! ?i"
  from assms have lt: "?i < length b"
    by (simp add: find_close_def split: if_splits)
  have op: "is_opener ?o" using lt by (rule opener_index_is_opener)
  define cs where "cs = drop (Suc ?i) b"
  have cs: "drop ?i b = ?o # cs"
    using Cons_nth_drop_Suc [OF lt] by (simp add: cs_def)
  from assms lt cs
  have sc: "scan_value ?o (closer_of ?o) scan_init (?o # cs) ?i = Some j"
    by (simp add: find_close_def)
  from opener_facts [OF op] have "?o \<noteq> dquote" by simp
  with sc have rec: "scan_value ?o (closer_of ?o)
      \<lparr>depth = 1, in_string = False, escape = False\<rparr> cs (Suc ?i) = Some j"
    by (simp add: scan_init_def scan_step_def)
  from scan_value_bounds [OF rec] have le: "Suc ?i \<le> j" and up: "j < Suc ?i + length cs"
    by simp_all
  define R where "R = drop (Suc j - Suc ?i) cs"
  from scan_value_sound [OF op refl rec, of 0]
  have "value_rest ?o (closer_of ?o) cs R"
    by (simp add: R_def)
  from value_rest_scan [OF op refl this]
  obtain body where body: "cs = body @ R"
    and tails: "\<forall>tail. value_rest ?o (closer_of ?o) (body @ tail) tail"
    by blast
  have lenR: "length R = length cs - (j - ?i)"
    by (simp add: R_def)
  have "length cs = length body + length R"
    by (simp add: body)
  with lenR up le have len: "length body = j - ?i" by simp
  have tk: "take (j - ?i) cs = body"
    by (simp add: body len [symmetric])
  from le have "value_text b j = ?o # take (j - ?i) cs"
    by (simp add: value_text_def cs Suc_diff_le)
  with tk have "value_text b j = ?o # body" by simp
  moreover from tails have "value_rest ?o (closer_of ?o) body []"
    by (metis append_Nil2)
  ultimately show ?thesis
    using op by (simp add: complete_value_def)
qed

lemma find_close_complete:
  assumes noise: "\<forall>c\<in>set noise. \<not> is_opener c" and v: "complete_value v"
  shows "find_close (noise @ v @ tail) = Some (length noise + length v - 1)"
    and "value_text (noise @ v @ tail) (length noise + length v - 1) = v"
    and "drop (Suc (length noise + length v - 1)) (noise @ v @ tail) = tail"
proof -
  from v obtain x s where vs: "v = x # s" and op: "is_opener x"
    and vr: "value_rest x (closer_of x) s []"
    by (auto simp: complete_value_def split: list.splits)
  from value_rest_scan [OF op refl vr]
  have scan: "\<And>d i tl. 1 \<le> d \<Longrightarrow>
        scan_value x (closer_of x) \<lparr>depth = d, in_string = False, escape = False\<rparr> (s @ tl) i =
        (if d = 1 then Some (i + length s - 1)
         else scan_value x (closer_of x) \<lparr>depth = d - 1, in_string = False, escape = False\<rparr> tl
                (i + length s))"
    and ne: "s \<noteq> []"
    by auto
  have oi: "opener_index (noise @ x # s @ tail) = length noise"
    using opener_index_noise [OF noise op] by simp
  from opener_facts [OF op] have "x \<noteq> dquote" by simp
  then have "scan_value x (closer_of x) scan_init (x # s @ tail) (length noise) =
      Some (Suc (length noise) + length s - 1)"
    using scan [of 1 tail "Suc (length noise)"] by (simp add: scan_init_def scan_step_def)
  then show fc: "find_close (noise @ v @ tail) = Some (length noise + length v - 1)"
    by (simp add: find_close_def oi vs del: scan_value.simps)
  show "value_text (noise @ v @ tail) (length noise + length v - 1) = v"
    by (simp add: value_text_def oi vs)
  show "drop (Suc (length noise + length v - 1)) (noise @ v @ tail) = tail"
    by (simp add: vs)
qed

lemma extract_complete_value:
  assumes "\<forall>c\<in>set noise. \<not> is_opener c" and "complete_value v"
  shows "extract_complete_json_values (noise @ v @ tail) =
     (v # fst (extract_complete_json_values tail), snd (extract_complete_json_values tail))"
  using extract_first(3) [OF find_close_complete(1) [OF assms, of tail]]
  by (simp only: find_close_complete(2,3) [OF assms] extract_complete_json_values_def)

lemma extract_residue_open:
  "find_close (snd (extract_complete_json_values b)) = None"
proof (cases "find_close (snd (extract_complete_json_values b))")
  case None
  then show ?thesis .
next
  case (Some j)
  from extract_first(3) [OF Some] extract_idem [of b] show ?thesis
    by (simp add: extract_complete_json_values_def)
qed

lemmas extract_eval = extract_complete_json_values_def extract_loop.simps scan_step_def
  scan_init_def is_opener_def dquote_def backslash_def Let_def

lemma escaped_literal_rest_ok: "string_rest escaped_literal_rest []"
  unfolding escaped_literal_rest_def
  by (fastforce intro: string_rest.intros simp: dquote_def backslash_def)

lemma nested_value_complete: "complete_value nested_value"
  unfolding complete_value_def nested_value_def escaped_literal_rest_def
  by (fastforce intro: value_rest.intros string_rest.intros
      simp: dquote_def backslash_def is_opener_def closer_of_def)

text \<open>
  C6. After a call of the extractor the buffer holds no completed top-level value: it is not
  opener-free noise followed by a complete value, and a second call returns nothing and
  changes nothing. A buffer without any opener is returned as it is with an empty result.
  Bytes are erased only with a value: when no value is emitted the buffer is unchanged, and
  a first emitted value \<open>v\<close> is a complete value that stood in the buffer behind opener-free
  noise, the extraction going on behind it. Conversely a complete value behind opener-free
  noise is emitted, and erased with that noise.
\<close>

theorem extractor_leaves_no_completed_value:
  "\<not> (\<exists>noise v rest. snd (extract_complete_json_values buffer) = noise @ v @ rest \<and>
        (\<forall>c\<in>set noise. \<not> is_opener c) \<and> complete_value v) \<and>
   extract_complete_json_values (snd (extract_complete_json_values buffer)) =
     ([], snd (extract_complete_json_values buffer)) \<and>
   ((\<forall>c\<in>set buffer. \<not> is_opener c) \<longrightarrow> extract_complete_json_values buffer = ([], buffer)) \<and>
   (fst (extract_complete_json_values buffer) = [] \<longrightarrow>
      snd (extract_complete_json_values buffer) = buffer) \<and>
   (\<forall>v vs. fst (extract_complete_json_values buffer) = v # vs \<longrightarrow>
      (\<exists>noise rest. buffer = noise @ v @ rest \<and> (\<forall>c\<in>set noise. \<not> is_opener c) \<and>
         complete_value v \<and>
         extract_complete_json_values rest = (vs, snd (extract_complete_json_values buffer)))) \<and>
   (\<forall>noise v rest. buffer = noise @ v @ rest \<and> (\<forall>c\<in>set noise. \<not> is_opener c) \<and>
        complete_value v \<longrightarrow>
      extract_complete_json_values buffer =
        (v # fst (extract_complete_json_values rest), snd (extract_complete_json_values rest)))"
proof (intro conjI allI impI notI)
  assume "\<exists>noise v rest. snd (extract_complete_json_values buffer) = noise @ v @ rest \<and>
        (\<forall>c\<in>set noise. \<not> is_opener c) \<and> complete_value v"
  then obtain noise v rest where "snd (extract_complete_json_values buffer) = noise @ v @ rest"
    "\<forall>c\<in>set noise. \<not> is_opener c" "complete_value v"
    by blast
  with find_close_complete(1) [of noise v rest] extract_residue_open [of buffer]
  show False by simp
next
  show "extract_complete_json_values (snd (extract_complete_json_values buffer)) =
     ([], snd (extract_complete_json_values buffer))"
    by (rule extract_idem)
next
  assume "\<forall>c\<in>set buffer. \<not> is_opener c"
  then show "extract_complete_json_values buffer = ([], buffer)"
    unfolding extract_complete_json_values_def
    by (simp add: extract_loop_None find_close_noise)
next
  assume empty: "fst (extract_complete_json_values buffer) = []"
  show "snd (extract_complete_json_values buffer) = buffer"
  proof (cases "find_close buffer")
    case None
    then show ?thesis
      by (simp add: extract_complete_json_values_def extract_loop_None)
  next
    case (Some j)
    from extract_first(3) [OF Some] empty show ?thesis
      by (simp add: extract_complete_json_values_def)
  qed
next
  fix v vs
  assume first: "fst (extract_complete_json_values buffer) = v # vs"
  show "\<exists>noise rest. buffer = noise @ v @ rest \<and> (\<forall>c\<in>set noise. \<not> is_opener c) \<and>
         complete_value v \<and>
         extract_complete_json_values rest = (vs, snd (extract_complete_json_values buffer))"
  proof (cases "find_close buffer")
    case None
    with first show ?thesis
      by (simp add: extract_complete_json_values_def extract_loop_None)
  next
    case (Some j)
    from extract_first(3) [OF Some] first
    have v: "v = value_text buffer j"
      and rest: "extract_loop (drop (Suc j) buffer) [] = (vs, snd (extract_loop buffer []))"
      by (simp_all add: extract_complete_json_values_def prod_eq_iff)
    have "buffer = take (opener_index buffer) buffer @ v @ drop (Suc j) buffer \<and>
        (\<forall>c\<in>set (take (opener_index buffer) buffer). \<not> is_opener c) \<and>
        complete_value v \<and>
        extract_complete_json_values (drop (Suc j) buffer) =
          (vs, snd (extract_complete_json_values buffer))"
      using extract_first(1) [OF Some] extract_first(2) [OF Some] v rest find_close_sound [OF Some]
      unfolding extract_complete_json_values_def by simp
    then show ?thesis by (intro exI)
  qed
next
  fix noise v rest
  assume "buffer = noise @ v @ rest \<and> (\<forall>c\<in>set noise. \<not> is_opener c) \<and> complete_value v"
  then show "extract_complete_json_values buffer =
        (v # fst (extract_complete_json_values rest), snd (extract_complete_json_values rest))"
    by (simp add: extract_complete_value)
qed

theorem extractor_leaves_no_completed_value_witness:
  \<open>extract_complete_json_values (''log: '' @ nested_value @ '' [2'') = ([nested_value], '' [2'') \<and>
   extract_complete_json_values '' [2'' = ([], '' [2'') \<and>
   extract_complete_json_values ''no value here'' = ([], ''no value here'') \<and>
   complete_value ''{"a":1}'' \<and>
   \<not> complete_value ''[2'' \<and>
   (\<exists>noise rest. ''log: {"a":1} [2'' = noise @ ''{"a":1}'' @ rest \<and>
      list_all (\<lambda>c. \<not> is_opener c) noise \<and>
      extract_complete_json_values rest = ([], '' [2''))\<close>
proof -
  have e1: \<open>extract_complete_json_values ''log: {"a":1} [2'' = ([''{"a":1}''], '' [2'')\<close>
    by (simp add: extract_eval)
  have e2: \<open>\<forall>c\<in>set ''no value here''. \<not> is_opener c\<close>
    by (simp add: is_opener_def)
  have e3: \<open>\<forall>c\<in>set ''log: ''. \<not> is_opener c\<close>
    by (simp add: is_opener_def)
  have tail: \<open>extract_complete_json_values '' [2'' = ([], '' [2'')\<close>
    by (simp add: extract_eval)
  from extractor_leaves_no_completed_value [of \<open>''log: {"a":1} [2''\<close>] e1
  have b: \<open>\<exists>noise rest. ''log: {"a":1} [2'' = noise @ ''{"a":1}'' @ rest \<and>
      (\<forall>c\<in>set noise. \<not> is_opener c) \<and> complete_value ''{"a":1}'' \<and>
      extract_complete_json_values rest = ([], '' [2'')\<close>
    by simp
  then have b1: \<open>complete_value ''{"a":1}''\<close>
    and b2: \<open>\<exists>noise rest. ''log: {"a":1} [2'' = noise @ ''{"a":1}'' @ rest \<and>
      list_all (\<lambda>c. \<not> is_opener c) noise \<and>
      extract_complete_json_values rest = ([], '' [2'')\<close>
    by (auto simp: list_all_iff)
  from extractor_leaves_no_completed_value [of \<open>''no value here''\<close>] e2
  have c: \<open>extract_complete_json_values ''no value here'' = ([], ''no value here'')\<close>
    by blast
  from extractor_leaves_no_completed_value [of \<open>''log: '' @ nested_value @ '' [2''\<close>]
    e3 nested_value_complete
  have \<open>extract_complete_json_values (''log: '' @ nested_value @ '' [2'') =
      (nested_value # fst (extract_complete_json_values '' [2''),
       snd (extract_complete_json_values '' [2''))\<close>
    by blast
  with tail have d: \<open>extract_complete_json_values (''log: '' @ nested_value @ '' [2'') =
      ([nested_value], '' [2'')\<close>
    by simp
  from extractor_leaves_no_completed_value [of \<open>''log: {"a":1} [2''\<close>] e1
  have \<open>\<not> (\<exists>noise v rest. '' [2'' = noise @ v @ rest \<and>
        (\<forall>c\<in>set noise. \<not> is_opener c) \<and> complete_value v)\<close>
    by simp
  then have \<open>\<not> ('' [2'' = '' '' @ ''[2'' @ [] \<and>
        (\<forall>c\<in>set '' ''. \<not> is_opener c) \<and> complete_value ''[2'')\<close>
    by blast
  then have n: \<open>\<not> complete_value ''[2''\<close>
    by (simp add: is_opener_def)
  from d tail c b1 n b2 show ?thesis by blast
qed

text \<open>
  C5. Feeding a text one byte at a time, with an extractor call after each byte, returns the
  same values in the same order, and leaves the same buffer, as one call on the whole text.
  A complete value, fed bytewise or at once, comes out exactly once and unchanged, also
  behind noise and before further data. While the scanner reads a string literal, from its
  opening quote to its closing quote, the depth stays what it was, whatever the literal
  holds: brackets, escaped quotes, escaped backslashes.
\<close>

theorem byte_feeding_agrees:
  "feed_bytes s [] [] = extract_complete_json_values s \<and>
   (complete_value v \<longrightarrow>
      extract_complete_json_values v = ([v], []) \<and> feed_bytes v [] [] = ([v], [])) \<and>
   ((\<forall>c\<in>set noise. \<not> is_opener c) \<and> complete_value v \<longrightarrow>
      feed_bytes (noise @ v @ tail) [] [] =
        (v # fst (extract_complete_json_values tail), snd (extract_complete_json_values tail))) \<and>
   (string_rest lit [] \<longrightarrow>
      (\<forall>k\<in>set (depth_trace opener closer
                  \<lparr>depth = d, in_string = False, escape = False\<rparr> (dquote # lit)). k = d))"
proof (intro conjI impI)
  show whole: "feed_bytes s [] [] = extract_complete_json_values s" for s
    using feed_bytes_extract [OF extract_Nil, of s "[]"] by simp
  show "extract_complete_json_values v = ([v], [])" if "complete_value v"
    using extract_complete_value [of "[]" v "[]"] that by (simp add: extract_Nil)
  then show "feed_bytes v [] [] = ([v], [])" if "complete_value v"
    using that by (simp add: whole)
  show "feed_bytes (noise @ v @ tail) [] [] =
        (v # fst (extract_complete_json_values tail), snd (extract_complete_json_values tail))"
    if "(\<forall>c\<in>set noise. \<not> is_opener c) \<and> complete_value v"
    using that by (simp add: whole extract_complete_value)
  show "\<forall>k\<in>set (depth_trace opener closer
                  \<lparr>depth = d, in_string = False, escape = False\<rparr> (dquote # lit)). k = d"
    if "string_rest lit []"
  proof -
    from string_rest_scan [OF that, of opener closer]
    have "\<forall>k\<in>set (depth_trace opener closer
                 \<lparr>depth = d, in_string = True, escape = False\<rparr> lit). k = d"
      by auto
    then show ?thesis
      by (simp add: scan_step_def)
  qed
qed

theorem byte_feeding_agrees_witness:
  \<open>feed_bytes nested_value [] [] = ([nested_value], []) \<and>
   extract_complete_json_values nested_value = ([nested_value], []) \<and>
   feed_bytes (''log '' @ nested_value @ '' [1,'') [] [] = ([nested_value], '' [1,'') \<and>
   list_all (\<lambda>k. k = 2)
     (depth_trace CHR ''{'' CHR ''}'' \<lparr>depth = 2, in_string = False, escape = False\<rparr>
        (dquote # escaped_literal_rest))\<close>
proof -
  note inst = byte_feeding_agrees [of _ nested_value \<open>''log ''\<close> \<open>'' [1,''\<close>
      escaped_literal_rest "CHR ''{''" "CHR ''}''" 2]
  have noise: \<open>\<forall>c\<in>set ''log ''. \<not> is_opener c\<close>
    by (simp add: is_opener_def)
  have tail: \<open>extract_complete_json_values '' [1,'' = ([], '' [1,'')\<close>
    by (simp add: extract_eval)
  from inst nested_value_complete
  have a: "extract_complete_json_values nested_value = ([nested_value], [])"
    and b: "feed_bytes nested_value [] [] = ([nested_value], [])"
    by blast+
  from inst noise nested_value_complete
  have \<open>feed_bytes (''log '' @ nested_value @ '' [1,'') [] [] =
      (nested_value # fst (extract_complete_json_values '' [1,''),
       snd (extract_complete_json_values '' [1,''))\<close>
    by blast
  with tail have c: \<open>feed_bytes (''log '' @ nested_value @ '' [1,'') [] [] =
      ([nested_value], '' [1,'')\<close>
    by simp
  from inst escaped_literal_rest_ok
  have "\<forall>k\<in>set (depth_trace CHR ''{'' CHR ''}''
      \<lparr>depth = 2, in_string = False, escape = False\<rparr> (dquote # escaped_literal_rest)). k = 2"
    by blast
  then have d: "list_all (\<lambda>k. k = 2)
     (depth_trace CHR ''{'' CHR ''}'' \<lparr>depth = 2, in_string = False, escape = False\<rparr>
        (dquote # escaped_literal_rest))"
    by (simp only: list_all_iff)
  from a b c d show ?thesis by blast
qed

section \<open>Properties of the registry and of dispatch\<close>

subsection \<open>Registration\<close>

text \<open>
  A second registration under the same name does not replace the handler: after registering
  a handler that returns 1 and then, under the same name, one that returns 2, the call
  still returns 1.
\<close>

theorem reregistration_overwrites_counterexample:
  "\<not> (\<forall>reg name h1 s1 h2 s2 args.
        invoke (register_tool (register_tool reg name h1 s1) name h2 s2) name args = h2 args)"
proof
  assume "\<forall>reg name h1 s1 h2 s2 args.
        invoke (register_tool (register_tool reg name h1 s1) name h2 s2) name args = h2 args"
  then have "invoke (register_tool (register_tool empty_registry ''f'' (const_handler (JNumber 1)) JNull)
        ''f'' (const_handler (JNumber 2)) JNull) ''f'' JNull = const_handler (JNumber 2) JNull"
    by blast
  then show False
    by (simp add: invoke_def register_tool_def emplace_def empty_registry_def const_handler_def)
qed

text \<open>
  C8 (as amended). A second \<^verbatim>\<open>register_tool\<close> with a name that is already registered
  changes nothing and signals nothing: the registry is the one the first registration left,
  so \<^verbatim>\<open>invoke\<close> runs the handler registered first.
\<close>

theorem reregistration_keeps_first:
  "register_tool (register_tool reg name h1 s1) name h2 s2 = register_tool reg name h1 s1 \<and>
   invoke (register_tool (register_tool reg name h1 s1) name h2 s2) name args =
     invoke (register_tool reg name h1 s1) name args \<and>
   (tools reg name = None \<longrightarrow>
      invoke (register_tool (register_tool reg name h1 s1) name h2 s2) name args = h1 args)"
proof -
  have same: "register_tool (register_tool reg name h1 s1) name h2 s2 = register_tool reg name h1 s1"
    by (simp add: register_tool_def emplace_def split: option.splits)
  have fresh: "invoke (register_tool reg name h1 s1) name args = h1 args" if "tools reg name = None"
    using that by (simp add: invoke_def register_tool_def emplace_def)
  show ?thesis
    using fresh by (simp add: same)
qed

theorem reregistration_keeps_first_witness:
  "invoke (register_tool (register_tool empty_registry ''f'' (const_handler (JNumber 1)) JNull)
        ''f'' (const_handler (JNumber 2)) JNull) ''f'' JNull = Inr (JNumber 1)"
proof -
  have "tools empty_registry ''f'' = None"
    by (simp add: empty_registry_def)
  with reregistration_keeps_first [of empty_registry "''f''" "const_handler (JNumber 1)" JNull
      "const_handler (JNumber 2)" JNull JNull]
  have "invoke (register_tool (register_tool empty_registry ''f'' (const_handler (JNumber 1)) JNull)
        ''f'' (const_handler (JNumber 2)) JNull) ''f'' JNull = const_handler (JNumber 1) JNull"
    by blast
  then show ?thesis
    by (simp add: const_handler_def)
qed

subsection \<open>Dispatch\<close>

lemma run_sequential_map:
  "run_sequential reg calls results = results @ map (\<lambda>(name, args). execute_call reg name args) calls"
  by (induction calls arbitrary: results) auto

lemma launch_all_map:
  "launch_all reg calls futs =
     futs @ map (\<lambda>(name, args). async (\<lambda>_. execute_call reg name args)) calls"
  by (induction calls arbitrary: futs) auto

lemma join_all_map: "join_all futs results = results @ map get futs"
  by (induction futs arbitrary: results) auto

lemma dispatch_map:
  "dispatch reg concurrent calls = map (\<lambda>(name, args). execute_call reg name args) calls"
  by (auto simp: dispatch_def run_sequential_map launch_all_map join_all_map async_def)

lemma execute_call_failure:
  "invoke reg name args = Inl e \<Longrightarrow>
   execute_call reg name args =
     \<lparr>tool_name = name, arguments = args, result = JNull,
      error = (case e of StdException what \<Rightarrow> what | OtherException \<Rightarrow> ''Unknown error invoking tool'')\<rparr>"
  by (cases e) (simp_all add: execute_call_def)

lemmas discover_eval = discover_def normalize_entries_def pick_message_like_def
  collect_tool_calls_from_node_def collect_singular_def value_string_def
  parse_function_arguments_def sample_parse_def Let_def

lemmas registry_eval = register_tool_def emplace_def empty_registry_def invoke_def

lemma sample_discover:
  "discover sample_parser sample_response =
     Inr [(''bad'', JObject []), (''echo'', JArray [JNumber 1]), (''ghost'', JObject []),
          (''odd'', JObject []), (''echo'', JObject [])]"
  by (simp add: sample_response_def discover_eval sample_parser_def function_object_def)

text \<open>
  C2. In either mode the outcomes of a call list are, call by call, the outcomes each call
  gives when dispatched alone, one per call. A call whose invocation throws gets an outcome
  with no result and with the \<^verbatim>\<open>what()\<close> text of the exception (a fixed text for a throw
  that is no \<^verbatim>\<open>std::exception\<close>) as its error; the throw goes no further, so once
  discovery has succeeded the function returns the outcomes of all calls.
\<close>

theorem handler_failures_are_isolated:
  "dispatch reg concurrent calls = concat (map (\<lambda>c. dispatch reg concurrent [c]) calls) \<and>
   length (dispatch reg concurrent calls) = length calls \<and>
   (\<forall>i e. i < length calls \<and> invoke reg (fst (calls ! i)) (snd (calls ! i)) = Inl e \<longrightarrow>
      dispatch reg concurrent calls ! i =
        \<lparr>tool_name = fst (calls ! i), arguments = snd (calls ! i), result = JNull,
         error = (case e of StdException what \<Rightarrow> what
                  | OtherException \<Rightarrow> ''Unknown error invoking tool'')\<rparr>) \<and>
   (\<forall>found. discover parse resp = Inr found \<longrightarrow>
      process_remote_response_and_execute parse reg resp concurrent =
        Inr (dispatch reg concurrent found))"
proof (intro conjI allI impI)
  show "dispatch reg concurrent calls = concat (map (\<lambda>c. dispatch reg concurrent [c]) calls)"
    by (induction calls) (simp_all add: dispatch_map)
  show "length (dispatch reg concurrent calls) = length calls"
    by (simp add: dispatch_map)
next
  fix i e
  assume a: "i < length calls \<and> invoke reg (fst (calls ! i)) (snd (calls ! i)) = Inl e"
  then have "dispatch reg concurrent calls ! i = execute_call reg (fst (calls ! i)) (snd (calls ! i))"
    by (simp add: dispatch_map case_prod_beta)
  with a show "dispatch reg concurrent calls ! i =
        \<lparr>tool_name = fst (calls ! i), arguments = snd (calls ! i), result = JNull,
         error = (case e of StdException what \<Rightarrow> what
                  | OtherException \<Rightarrow> ''Unknown error invoking tool'')\<rparr>"
    by (simp add: execute_call_failure)
next
  fix found
  assume "discover parse resp = Inr found"
  then show "process_remote_response_and_execute parse reg resp concurrent =
        Inr (dispatch reg concurrent found)"
    by (simp add: process_remote_response_and_execute_def)
qed

theorem handler_failures_are_isolated_witness:
  "dispatch sample_registry True
     [(''bad'', JObject []), (''echo'', JArray [JNumber 1]), (''odd'', JObject [])] ! 0 =
     \<lparr>tool_name = ''bad'', arguments = JObject [], result = JNull, error = ''fail''\<rparr> \<and>
   dispatch sample_registry True
     [(''bad'', JObject []), (''echo'', JArray [JNumber 1]), (''odd'', JObject [])] ! 2 =
     \<lparr>tool_name = ''odd'', arguments = JObject [], result = JNull,
      error = ''Unknown error invoking tool''\<rparr> \<and>
   dispatch sample_registry True
     [(''bad'', JObject []), (''echo'', JArray [JNumber 1]), (''odd'', JObject [])] =
     dispatch sample_registry True [(''bad'', JObject [])] @
     dispatch sample_registry True [(''echo'', JArray [JNumber 1])] @
     dispatch sample_registry True [(''odd'', JObject [])] \<and>
   dispatch sample_registry True [(''echo'', JArray [JNumber 1])] =
     [\<lparr>tool_name = ''echo'', arguments = JArray [JNumber 1],
       result = JObject [(''echoed'', JArray [JNumber 1])], error = ''''\<rparr>] \<and>
   process_remote_response_and_execute sample_parser sample_registry sample_response True =
     Inr (dispatch sample_registry True
       [(''bad'', JObject []), (''echo'', JArray [JNumber 1]), (''ghost'', JObject []),
        (''odd'', JObject []), (''echo'', JObject [])])"
proof -
  let ?calls = "[(''bad'', JObject []), (''echo'', JArray [JNumber 1]), (''odd'', JObject [])]"
  note inst = handler_failures_are_isolated [of sample_registry True ?calls sample_parser
      sample_response]
  have bad: "invoke sample_registry ''bad'' (JObject []) = Inl (StdException ''fail'')"
    by (simp add: registry_eval sample_registry_def echo_handler_def bad_handler_def
        odd_handler_def)
  have odd: "invoke sample_registry ''odd'' (JObject []) = Inl OtherException"
    by (simp add: registry_eval sample_registry_def echo_handler_def bad_handler_def
        odd_handler_def)
  have echo: "dispatch sample_registry True [(''echo'', JArray [JNumber 1])] =
     [\<lparr>tool_name = ''echo'', arguments = JArray [JNumber 1],
       result = JObject [(''echoed'', JArray [JNumber 1])], error = ''''\<rparr>]"
    by (simp add: dispatch_def async_def execute_call_def registry_eval sample_registry_def
        echo_handler_def bad_handler_def odd_handler_def)
  from inst have a: "\<And>i e. i < length ?calls \<and> invoke sample_registry (fst (?calls ! i)) (snd (?calls ! i)) = Inl e \<Longrightarrow>
      dispatch sample_registry True ?calls ! i =
        \<lparr>tool_name = fst (?calls ! i), arguments = snd (?calls ! i), result = JNull,
         error = (case e of StdException what \<Rightarrow> what
                  | OtherException \<Rightarrow> ''Unknown error invoking tool'')\<rparr>"
    by blast
  have c0: "dispatch sample_registry True ?calls ! 0 =
     \<lparr>tool_name = ''bad'', arguments = JObject [], result = JNull, error = ''fail''\<rparr>"
    using a [of 0 "StdException ''fail''"] bad by simp
  have c2: "dispatch sample_registry True ?calls ! 2 =
     \<lparr>tool_name = ''odd'', arguments = JObject [], result = JNull,
      error = ''Unknown error invoking tool''\<rparr>"
    using a [of 2 OtherException] odd by simp
  from inst have c3: "dispatch sample_registry True ?calls =
      concat (map (\<lambda>c. dispatch sample_registry True [c]) ?calls)"
    by blast
  from inst sample_discover have c4:
    "process_remote_response_and_execute sample_parser sample_registry sample_response True =
     Inr (dispatch sample_registry True
       [(''bad'', JObject []), (''echo'', JArray [JNumber 1]), (''ghost'', JObject []),
        (''odd'', JObject []), (''echo'', JObject [])])"
    by blast
  from c0 c2 c3 echo c4 show ?thesis by simp
qed

text \<open>
  C3. For a name that is not registered, \<^verbatim>\<open>invoke\<close> throws to its caller; a discovered
  call with that name makes \<^verbatim>\<open>process_remote_response_and_execute\<close> return normally, with
  an outcome for that call whose error is set and whose result is left null.
\<close>

theorem unregistered_handler_outcome:
  "tools reg name = None \<longrightarrow>
     invoke reg name args = Inl (StdException (''Tool not found: '' @ name)) \<and>
     (\<forall>calls i. discover parse resp = Inr calls \<and> i < length calls \<and> calls ! i = (name, args) \<longrightarrow>
        (\<exists>outs. process_remote_response_and_execute parse reg resp concurrent = Inr outs \<and>
           length outs = length calls \<and>
           outs ! i = \<lparr>tool_name = name, arguments = args, result = JNull,
                       error = ''Tool not found: '' @ name\<rparr> \<and>
           error (outs ! i) \<noteq> ''''))"
proof (intro impI conjI allI)
  assume none: "tools reg name = None"
  then show inv: "invoke reg name args = Inl (StdException (''Tool not found: '' @ name))"
    by (simp add: invoke_def)
  fix calls i
  assume a: "discover parse resp = Inr calls \<and> i < length calls \<and> calls ! i = (name, args)"
  let ?outs = "dispatch reg concurrent calls"
  have "process_remote_response_and_execute parse reg resp concurrent = Inr ?outs"
    using a by (simp add: process_remote_response_and_execute_def)
  moreover have "length ?outs = length calls"
    by (simp add: dispatch_map)
  moreover have at: "?outs ! i = \<lparr>tool_name = name, arguments = args, result = JNull,
                       error = ''Tool not found: '' @ name\<rparr>"
    using a by (simp add: dispatch_map execute_call_failure [OF inv])
  moreover have "error (?outs ! i) \<noteq> ''''"
    by (simp add: at)
  ultimately show "\<exists>outs. process_remote_response_and_execute parse reg resp concurrent = Inr outs \<and>
           length outs = length calls \<and>
           outs ! i = \<lparr>tool_name = name, arguments = args, result = JNull,
                       error = ''Tool not found: '' @ name\<rparr> \<and>
           error (outs ! i) \<noteq> ''''"
    by blast
qed

theorem unregistered_handler_outcome_witness:
  "invoke sample_registry ''ghost'' (JObject []) = Inl (StdException ''Tool not found: ghost'') \<and>
   (\<exists>outs. process_remote_response_and_execute sample_parser sample_registry sample_response False =
        Inr outs \<and>
      length outs = 5 \<and>
      outs ! 2 = \<lparr>tool_name = ''ghost'', arguments = JObject [], result = JNull,
                  error = ''Tool not found: ghost''\<rparr>)"
proof -
  let ?calls = "[(''bad'', JObject []), (''echo'', JArray [JNumber 1]), (''ghost'', JObject []),
        (''odd'', JObject []), (''echo'', JObject [])]"
  have none: "tools sample_registry ''ghost'' = None"
    by (simp add: registry_eval sample_registry_def echo_handler_def bad_handler_def
        odd_handler_def)
  have pre: "discover sample_parser sample_response = Inr ?calls \<and> 2 < length ?calls \<and>
      ?calls ! 2 = (''ghost'', JObject [])"
    by (simp add: sample_discover)
  from unregistered_handler_outcome [of sample_registry "''ghost''" "JObject []" sample_parser
      sample_response False] none
  have inv: "invoke sample_registry ''ghost'' (JObject []) =
        Inl (StdException (''Tool not found: '' @ ''ghost''))"
    and all: "\<And>calls i. discover sample_parser sample_response = Inr calls \<and> i < length calls \<and>
        calls ! i = (''ghost'', JObject []) \<Longrightarrow>
        (\<exists>outs. process_remote_response_and_execute sample_parser sample_registry sample_response
              False = Inr outs \<and>
           length outs = length calls \<and>
           outs ! i = \<lparr>tool_name = ''ghost'', arguments = JObject [], result = JNull,
                       error = ''Tool not found: '' @ ''ghost''\<rparr> \<and>
           error (outs ! i) \<noteq> '''')"
    by blast+
  from all [OF pre] inv show ?thesis
    by auto
qed

subsection \<open>Discovery order\<close>

lemma value_string_name: "value_string func ''name'' '''' = Inr name \<Longrightarrow> name = name_of func"
  by (auto simp: value_string_def name_of_def split: json.splits option.splits)

lemma collect_list_order:
  "collect_list parse tcs out = Inr out' \<Longrightarrow>
   out' = out @ concat (map (\<lambda>tc. call_request parse
                        (case lookup tc ''function'' of Some f \<Rightarrow> f | None \<Rightarrow> tc)) tcs)"
proof (induction tcs arbitrary: out)
  case Nil
  then show ?case by simp
next
  case (Cons tc tcs)
  let ?func = "case lookup tc ''function'' of Some f \<Rightarrow> f | None \<Rightarrow> tc"
  from Cons.prems obtain name where name: "value_string ?func ''name'' '''' = Inr name"
    by (cases "value_string ?func ''name'' ''''") (simp_all add: Let_def)
  from Cons.prems name have "collect_list parse tcs
      (if name \<noteq> '''' then out @ [(name, parse_function_arguments parse ?func)] else out) = Inr out'"
    by (simp add: Let_def)
  from Cons.IH [OF this] value_string_name [OF name] show ?case
    by (simp add: call_request_def)
qed

lemma collect_singular_order:
  "collect_singular parse node out = Inr out' \<Longrightarrow> out' = out @ singular_convention parse node"
  by (auto simp: collect_singular_def singular_convention_def call_request_def
      split: option.splits json.splits sum.splits if_splits dest: value_string_name)

lemma collect_node_order:
  "collect_tool_calls_from_node parse node out = Inr out' \<Longrightarrow>
   out' = out @ list_convention parse node @ singular_convention parse node"
  by (auto simp: collect_tool_calls_from_node_def list_convention_def
      split: option.splits json.splits sum.splits
      dest!: collect_list_order collect_singular_order)

lemma discover_loop_order:
  "discover_loop parse entries calls = Inr calls' \<Longrightarrow>
   calls' = calls @ concat (map (\<lambda>entry. list_convention parse (pick_message_like entry) @
                          singular_convention parse (pick_message_like entry)) entries)"
proof (induction entries arbitrary: calls)
  case Nil
  then show ?case by simp
next
  case (Cons entry entries)
  from Cons.prems obtain mid
    where one: "collect_tool_calls_from_node parse (pick_message_like entry) calls = Inr mid"
      and rest: "discover_loop parse entries mid = Inr calls'"
    by (auto split: sum.splits)
  from Cons.IH [OF rest] collect_node_order [OF one] show ?case
    by simp
qed

lemma execute_call_fields:
  "tool_name (execute_call reg name args) = name \<and> arguments (execute_call reg name args) = args"
  by (simp add: execute_call_def Let_def split: sum.splits exn.splits)

text \<open>
  C1. Sequential and concurrent mode return the same thing for every response. Whenever
  outcomes are returned, their names and arguments, read in order, are the calls of the
  response in discovery order, whatever their number.
\<close>

theorem outcomes_in_discovery_order:
  "process_remote_response_and_execute parse reg resp True =
     process_remote_response_and_execute parse reg resp False \<and>
   (\<forall>outs. process_remote_response_and_execute parse reg resp concurrent = Inr outs \<longrightarrow>
      map (\<lambda>r. (tool_name r, arguments r)) outs = discovery_order parse resp)"
proof (intro conjI allI impI)
  show "process_remote_response_and_execute parse reg resp True =
     process_remote_response_and_execute parse reg resp False"
    by (simp add: process_remote_response_and_execute_def dispatch_map split: sum.splits)
next
  fix outs
  assume "process_remote_response_and_execute parse reg resp concurrent = Inr outs"
  then obtain calls where d: "discover parse resp = Inr calls"
    and outs: "outs = dispatch reg concurrent calls"
    by (auto simp: process_remote_response_and_execute_def split: sum.splits)
  from d have "calls = discovery_order parse resp"
    unfolding discover_def discovery_order_def by (auto dest: discover_loop_order)
  moreover have "map (\<lambda>r. (tool_name r, arguments r)) outs = calls"
    unfolding outs dispatch_map
    by (induction calls) (auto simp: execute_call_fields)
  ultimately show "map (\<lambda>r. (tool_name r, arguments r)) outs = discovery_order parse resp"
    by simp
qed

theorem outcomes_in_discovery_order_witness:
  "map (\<lambda>r. (tool_name r, arguments r))
     (dispatch sample_registry True
        [(''bad'', JObject []), (''echo'', JArray [JNumber 1]), (''ghost'', JObject []),
         (''odd'', JObject []), (''echo'', JObject [])]) =
   discovery_order sample_parser sample_response \<and>
   discovery_order sample_parser sample_response =
     [(''bad'', JObject []), (''echo'', JArray [JNumber 1]), (''ghost'', JObject []),
      (''odd'', JObject []), (''echo'', JObject [])]"
proof -
  let ?calls = "[(''bad'', JObject []), (''echo'', JArray [JNumber 1]), (''ghost'', JObject []),
         (''odd'', JObject []), (''echo'', JObject [])]"
  have run: "process_remote_response_and_execute sample_parser sample_registry sample_response True =
      Inr (dispatch sample_registry True ?calls)"
    by (simp add: process_remote_response_and_execute_def sample_discover)
  have ord: "discovery_order sample_parser sample_response = ?calls"
    by (simp add: discovery_order_def sample_response_def list_convention_def
        singular_convention_def call_request_def name_of_def discover_eval sample_parser_def
        function_object_def)
  from outcomes_in_discovery_order [of sample_parser sample_registry sample_response True] run
  have "map (\<lambda>r. (tool_name r, arguments r)) (dispatch sample_registry True ?calls) =
      discovery_order sample_parser sample_response"
    by simp
  with ord show ?thesis by simp
qed

section \<open>Properties of the streaming orchestrator\<close>

lemma handle_blobs_state:
  "handle_blobs parse reg concurrent blobs st =
     \<lparr>delivered = delivered st @ concat (map (outcomes_of parse reg concurrent) blobs),
      dispatched = dispatched st @ parsed_values parse blobs\<rparr>"
proof (induction blobs arbitrary: st)
  case Nil
  then show ?case by (simp add: parsed_values_def)
next
  case (Cons s blobs)
  show ?case
    by (simp add: Cons.IH handle_blob_def outcomes_of_def parsed_values_def
        split: sum.splits)
qed

lemma handle_blobs_append:
  "handle_blobs parse reg concurrent (xs @ ys) st =
     handle_blobs parse reg concurrent ys (handle_blobs parse reg concurrent xs st)"
  by (induction xs arbitrary: st) simp_all

lemma stream_loop_whole:
  "stream_loop parse reg concurrent chunks buffer st =
     handle_blobs parse reg concurrent
       (fst (extract_complete_json_values (buffer @ concat chunks))) st"
proof (induction chunks arbitrary: buffer st)
  case Nil
  then show ?case by (simp add: case_prod_beta)
next
  case (Cons chunk chunks)
  obtain blobs buffer' where step: "extract_complete_json_values (buffer @ chunk) = (blobs, buffer')"
    by (cases "extract_complete_json_values (buffer @ chunk)")
  have "fst (extract_complete_json_values ((buffer @ chunk) @ concat chunks)) =
      blobs @ fst (extract_complete_json_values (buffer' @ concat chunks))"
    by (subst extract_append) (simp add: step)
  then show ?case
    by (simp add: step Cons.IH handle_blobs_append)
qed

text \<open>
  C4. However the input is cut into chunks, the values on which dispatch is called are the
  completed values of the whole input that parse, each once and in order, and the outcomes
  delivered are theirs, in order. This includes a value whose closer is the last byte of the
  input: an input that is one complete value, in any chunking, has that value dispatched.
\<close>

theorem streaming_dispatches_each_value_once:
  "dispatched (process_streaming_response_and_execute parse reg chunks concurrent) =
     parsed_values parse (completed_values chunks) \<and>
   delivered (process_streaming_response_and_execute parse reg chunks concurrent) =
     concat (map (outcomes_of parse reg concurrent) (completed_values chunks)) \<and>
   (\<forall>obj. parse s = Inr obj \<and> extract_complete_json_values (concat chunks) = ([s], []) \<longrightarrow>
      dispatched (process_streaming_response_and_execute parse reg chunks concurrent) = [obj])"
proof -
  have whole: "process_streaming_response_and_execute parse reg chunks concurrent =
      \<lparr>delivered = concat (map (outcomes_of parse reg concurrent) (completed_values chunks)),
       dispatched = parsed_values parse (completed_values chunks)\<rparr>"
    by (simp add: process_streaming_response_and_execute_def stream_loop_whole
        handle_blobs_state completed_values_def)
  show ?thesis
    by (auto simp: whole completed_values_def parsed_values_def)
qed

theorem streaming_dispatches_each_value_once_witness:
  "dispatched (process_streaming_response_and_execute stream_parser sample_registry
      stream_chunks False) = [stream_value] \<and>
   delivered (process_streaming_response_and_execute stream_parser sample_registry
      stream_chunks False) =
     [\<lparr>tool_name = ''echo'', arguments = JObject [],
       result = JObject [(''echoed'', JObject [])], error = ''''\<rparr>] \<and>
   dispatched (process_streaming_response_and_execute stream_parser sample_registry
      [take 20 stream_text, drop 20 stream_text] False) = [stream_value]"
proof -
  have vals: "completed_values stream_chunks = [stream_text, ''{x}'']"
    by (simp add: completed_values_def stream_chunks_def stream_text_def extract_eval)
  have parsed: "parsed_values stream_parser [stream_text, ''{x}''] = [stream_value]"
    by (simp add: parsed_values_def stream_parser_def sample_parse_def stream_text_def)
  have run: "process_remote_response_and_execute stream_parser sample_registry stream_value False =
      Inr [\<lparr>tool_name = ''echo'', arguments = JObject [],
             result = JObject [(''echoed'', JObject [])], error = ''''\<rparr>]"
    by (simp add: process_remote_response_and_execute_def stream_value_def stream_parser_def
        stream_text_def discover_eval dispatch_def execute_call_def registry_eval
        function_object_def sample_registry_def echo_handler_def bad_handler_def odd_handler_def)
  have outs: "concat (map (outcomes_of stream_parser sample_registry False) [stream_text, ''{x}'']) =
      [\<lparr>tool_name = ''echo'', arguments = JObject [],
             result = JObject [(''echoed'', JObject [])], error = ''''\<rparr>]"
  proof -
    have "stream_parser stream_text = Inr stream_value"
      by (simp add: stream_parser_def sample_parse_def)
    moreover have \<open>stream_parser ''{x}'' = Inl (StdException ''parse error'')\<close>
      by (simp add: stream_parser_def sample_parse_def stream_text_def)
    ultimately show ?thesis
      by (simp add: outcomes_of_def run)
  qed
  have last: "parse_ok \<and> extract_complete_json_values (concat [take 20 stream_text, drop 20 stream_text]) =
      ([stream_text], [])"
    if "parse_ok" for parse_ok
    using that by (simp add: stream_text_def extract_eval)
  have ok: "stream_parser stream_text = Inr stream_value"
    by (simp add: stream_parser_def sample_parse_def)
  from streaming_dispatches_each_value_once [of stream_parser sample_registry stream_chunks False]
    vals parsed outs
  have a: "dispatched (process_streaming_response_and_execute stream_parser sample_registry
      stream_chunks False) = [stream_value]"
    and b: "delivered (process_streaming_response_and_execute stream_parser sample_registry
      stream_chunks False) =
     [\<lparr>tool_name = ''echo'', arguments = JObject [],
       result = JObject [(''echoed'', JObject [])], error = ''''\<rparr>]"
    by simp_all
  from streaming_dispatches_each_value_once [of stream_parser sample_registry
      "[take 20 stream_text, drop 20 stream_text]" False stream_text] last [OF ok]
  have c: "dispatched (process_streaming_response_and_execute stream_parser sample_registry
      [take 20 stream_text, drop 20 stream_text] False) = [stream_value]"
    by blast
  from a b c show ?thesis by simp
qed

section \<open>Properties of the direct single-response path\<close>

lemma scan_tool_calls_first:
  "scan_tool_calls parse reg tcs =
     (case functions_of_tool_calls tcs of
        [] \<Rightarrow> None
      | func # _ \<Rightarrow> Some (call_function parse reg func))"
  by (induction tcs) (simp_all add: functions_of_tool_calls_def split: option.splits)

lemma scan_choices_Cons:
  "scan_choices parse reg (choice # choices) =
     (case functions_of_choice choice of
        [] \<Rightarrow> scan_choices parse reg choices
      | func # _ \<Rightarrow> call_function parse reg func)"
  by (simp add: functions_of_choice_def scan_tool_calls_first
      split: option.splits json.splits list.splits)

lemma scan_choices_first:
  "scan_choices parse reg choices =
     (case concat (map functions_of_choice choices) of
        [] \<Rightarrow> Inl no_tool_call
      | func # _ \<Rightarrow> call_function parse reg func)"
proof (induction choices)
  case Nil
  then show ?case by (simp add: no_tool_call_def)
next
  case (Cons choice choices)
  show ?case
  proof (cases "functions_of_choice choice")
    case Nil
    with Cons.IH show ?thesis by (simp only: scan_choices_Cons) simp
  next
    case (Cons func funcs)
    then show ?thesis by (simp only: scan_choices_Cons) simp
  qed
qed

lemma handle_tool_call_response_first:
  "handle_tool_call_response parse reg api_response =
     (case direct_functions api_response of
        [] \<Rightarrow> Inl no_tool_call
      | func # _ \<Rightarrow> call_function parse reg func)"
  by (simp add: handle_tool_call_response_def direct_functions_def scan_choices_first)

lemmas direct_eval = handle_tool_call_response_def direct_entries_def call_function_def
  value_string_def sample_parse_def

text \<open>
  C9. When the direct path finds no \<^verbatim>\<open>function\<close> member to call, and in particular when
  the response has no entries at all, it throws \<^verbatim>\<open>std::runtime_error\<close> with the text
  ``No tool call found in response'' to its caller; it has no empty result to return.
\<close>

theorem no_call_found_is_thrown:
  "(direct_functions api_response = [] \<longrightarrow>
      handle_tool_call_response parse reg api_response =
        Inl (StdException ''No tool call found in response'')) \<and>
   (items (direct_entries api_response) = [] \<longrightarrow>
      handle_tool_call_response parse reg api_response =
        Inl (StdException ''No tool call found in response''))"
proof (intro conjI impI)
  assume "direct_functions api_response = []"
  then show "handle_tool_call_response parse reg api_response =
        Inl (StdException ''No tool call found in response'')"
    by (simp add: handle_tool_call_response_first no_tool_call_def)
next
  assume "items (direct_entries api_response) = []"
  then have "direct_functions api_response = []"
    by (simp add: direct_functions_def)
  then show "handle_tool_call_response parse reg api_response =
        Inl (StdException ''No tool call found in response'')"
    by (simp add: handle_tool_call_response_first no_tool_call_def)
qed

theorem no_call_found_is_thrown_witness:
  "handle_tool_call_response sample_parser sample_registry delta_response =
     Inl (StdException ''No tool call found in response'') \<and>
   handle_tool_call_response sample_parser sample_registry (JObject [(''choices'', JArray [])]) =
     Inl (StdException ''No tool call found in response'')"
proof -
  have d: "direct_functions delta_response = []"
    by (simp add: direct_functions_def direct_entries_def functions_of_choice_def
        delta_response_def)
  have e: "items (direct_entries (JObject [(''choices'', JArray [])])) = []"
    by (simp add: direct_entries_def)
  from no_call_found_is_thrown [of delta_response sample_parser sample_registry] d
    no_call_found_is_thrown [of "JObject [(''choices'', JArray [])]" sample_parser sample_registry] e
  show ?thesis by blast
qed

lemma invoke_logged_fst: "fst (invoke_logged reg name args) = invoke reg name args"
  by (simp add: invoke_logged_def invoke_def split: option.splits)

lemma invoke_logged_length: "length (snd (invoke_logged reg name args)) \<le> Suc 0"
  by (simp add: invoke_logged_def split: option.splits)

lemma call_function_logged_fst:
  "fst (call_function_logged parse reg func) = call_function parse reg func"
  by (simp add: call_function_logged_def call_function_def invoke_logged_fst split: sum.splits)

lemma call_function_logged_length:
  "length (snd (call_function_logged parse reg func)) \<le> Suc 0"
  by (simp add: call_function_logged_def invoke_logged_length split: sum.splits)

lemma scan_tool_calls_logged_first:
  "scan_tool_calls_logged parse reg tcs =
     (case functions_of_tool_calls tcs of
        [] \<Rightarrow> None
      | func # _ \<Rightarrow> Some (call_function_logged parse reg func))"
  by (induction tcs) (simp_all add: functions_of_tool_calls_def split: option.splits)

lemma scan_choices_logged_Cons:
  "scan_choices_logged parse reg (choice # choices) =
     (case functions_of_choice choice of
        [] \<Rightarrow> scan_choices_logged parse reg choices
      | func # _ \<Rightarrow> call_function_logged parse reg func)"
  by (simp add: functions_of_choice_def scan_tool_calls_logged_first
      split: option.splits json.splits list.splits)

lemma scan_choices_logged_first:
  "scan_choices_logged parse reg choices =
     (case concat (map functions_of_choice choices) of
        [] \<Rightarrow> (Inl no_tool_call, [])
      | func # _ \<Rightarrow> call_function_logged parse reg func)"
proof (induction choices)
  case Nil
  then show ?case by (simp add: no_tool_call_def)
next
  case (Cons choice choices)
  show ?case
  proof (cases "functions_of_choice choice")
    case Nil
    with Cons.IH show ?thesis by (simp only: scan_choices_logged_Cons) simp
  next
    case (Cons func funcs)
    then show ?thesis by (simp only: scan_choices_logged_Cons) simp
  qed
qed

lemma handle_logged_first:
  "handle_tool_call_response_logged parse reg api_response =
     (case direct_functions api_response of
        [] \<Rightarrow> (Inl no_tool_call, [])
      | func # _ \<Rightarrow> call_function_logged parse reg func)"
  by (simp add: handle_tool_call_response_logged_def direct_functions_def
      scan_choices_logged_first)

lemma handle_logged_fst:
  "fst (handle_tool_call_response_logged parse reg api_response) =
     handle_tool_call_response parse reg api_response"
  by (simp add: handle_logged_first handle_tool_call_response_first call_function_logged_fst
      split: list.splits)

text \<open>
  The call that is run need not stand under the first entry that has a \<^verbatim>\<open>message\<close> member:
  here that entry holds no call, and the path runs \<^verbatim>\<open>echo\<close> from the second entry and
  returns its result.
\<close>

theorem direct_path_first_message_entry_counterexample:
  "first_message_entry later_message_response =
     Some (JObject [(''message'', JObject [(''content'', JString ''hi'')])]) \<and>
   functions_of_choice (JObject [(''message'', JObject [(''content'', JString ''hi'')])]) = [] \<and>
   handle_tool_call_response sample_parser sample_registry later_message_response =
     Inr (JObject [(''echoed'', JObject [])]) \<and>
   handle_tool_call_response_logged sample_parser sample_registry later_message_response =
     (Inr (JObject [(''echoed'', JObject [])]), [(''echo'', JObject [])])"
  by (simp add: first_message_entry_def later_message_response_def direct_eval
      handle_tool_call_response_logged_def call_function_logged_def invoke_logged_def
      functions_of_choice_def registry_eval sample_parser_def function_object_def
      sample_registry_def echo_handler_def bad_handler_def odd_handler_def)

text \<open>
  C10 (as amended). The direct path makes at most one handler call. What it returns or
  throws, and the call it makes, are those of the first \<^verbatim>\<open>tool_calls\<close> element with a
  \<^verbatim>\<open>function\<close> member found when the entries with a \<^verbatim>\<open>message\<close> member are searched in
  order; entries whose message holds no such element are passed over, and nothing behind
  the element found is called. Entries without a \<^verbatim>\<open>message\<close> member (calls under
  \<^verbatim>\<open>delta\<close>) and messages without a \<^verbatim>\<open>tool_calls\<close> member (the \<^verbatim>\<open>function_call\<close>
  convention) are not looked into: such responses end in the no-call-found failure, with no
  handler called.
\<close>

theorem direct_path_runs_first_call_only:
  "fst (handle_tool_call_response_logged parse reg api_response) =
     handle_tool_call_response parse reg api_response \<and>
   length (snd (handle_tool_call_response_logged parse reg api_response)) \<le> 1 \<and>
   (direct_functions api_response = [] \<longrightarrow>
      handle_tool_call_response_logged parse reg api_response =
        (Inl (StdException ''No tool call found in response''), [])) \<and>
   (\<forall>func more. direct_functions api_response = func # more \<longrightarrow>
      handle_tool_call_response_logged parse reg api_response =
        call_function_logged parse reg func \<and>
      handle_tool_call_response parse reg api_response = call_function parse reg func) \<and>
   (\<forall>before choice after func more.
      items (direct_entries api_response) = before @ choice # after \<and>
      (\<forall>c\<in>set before. functions_of_choice c = []) \<and>
      functions_of_choice choice = func # more \<longrightarrow>
      handle_tool_call_response_logged parse reg api_response =
        call_function_logged parse reg func) \<and>
   (\<forall>before choice after message tcs func more.
      items (direct_entries api_response) = before @ choice # after \<and>
      (\<forall>c\<in>set before. lookup c ''message'' = None) \<and>
      lookup choice ''message'' = Some message \<and>
      lookup message ''tool_calls'' = Some (JArray tcs) \<and>
      functions_of_tool_calls tcs = func # more \<longrightarrow>
      handle_tool_call_response parse reg api_response = call_function parse reg func) \<and>
   ((\<forall>choice\<in>set (items (direct_entries api_response)). lookup choice ''message'' = None) \<longrightarrow>
      handle_tool_call_response parse reg api_response =
        Inl (StdException ''No tool call found in response'')) \<and>
   ((\<forall>choice\<in>set (items (direct_entries api_response)). \<forall>message.
        lookup choice ''message'' = Some message \<longrightarrow> lookup message ''tool_calls'' = None) \<longrightarrow>
      handle_tool_call_response parse reg api_response =
        Inl (StdException ''No tool call found in response''))"
proof (intro conjI allI impI)
  show "fst (handle_tool_call_response_logged parse reg api_response) =
     handle_tool_call_response parse reg api_response"
    by (rule handle_logged_fst)
  show "length (snd (handle_tool_call_response_logged parse reg api_response)) \<le> 1"
    by (simp add: handle_logged_first call_function_logged_length split: list.splits)
  show "handle_tool_call_response_logged parse reg api_response =
        (Inl (StdException ''No tool call found in response''), [])"
    if "direct_functions api_response = []"
    using that by (simp add: handle_logged_first no_tool_call_def)
next
  fix func more
  assume f: "direct_functions api_response = func # more"
  then show "handle_tool_call_response_logged parse reg api_response =
        call_function_logged parse reg func"
    by (simp add: handle_logged_first)
  from f show "handle_tool_call_response parse reg api_response = call_function parse reg func"
    by (simp add: handle_tool_call_response_first)
next
  fix before choice after func more
  assume a: "items (direct_entries api_response) = before @ choice # after \<and>
      (\<forall>c\<in>set before. functions_of_choice c = []) \<and>
      functions_of_choice choice = func # more"
  then have "direct_functions api_response =
      func # more @ concat (map functions_of_choice after)"
    by (simp add: direct_functions_def)
  then show "handle_tool_call_response_logged parse reg api_response =
        call_function_logged parse reg func"
    by (simp add: handle_logged_first)
next
  fix before choice after message tcs func more
  assume a: "items (direct_entries api_response) = before @ choice # after \<and>
      (\<forall>c\<in>set before. lookup c ''message'' = None) \<and>
      lookup choice ''message'' = Some message \<and>
      lookup message ''tool_calls'' = Some (JArray tcs) \<and>
      functions_of_tool_calls tcs = func # more"
  then have "concat (map functions_of_choice before) = []"
    by (simp add: functions_of_choice_def)
  moreover from a have "functions_of_choice choice = func # more"
    by (simp add: functions_of_choice_def)
  ultimately have "direct_functions api_response =
      func # more @ concat (map functions_of_choice after)"
    using a by (simp add: direct_functions_def)
  then show "handle_tool_call_response parse reg api_response = call_function parse reg func"
    by (simp add: handle_tool_call_response_first)
next
  assume "\<forall>choice\<in>set (items (direct_entries api_response)). lookup choice ''message'' = None"
  then have "direct_functions api_response = []"
    by (simp add: direct_functions_def functions_of_choice_def)
  then show "handle_tool_call_response parse reg api_response =
        Inl (StdException ''No tool call found in response'')"
    by (simp add: handle_tool_call_response_first no_tool_call_def)
next
  assume "\<forall>choice\<in>set (items (direct_entries api_response)). \<forall>message.
        lookup choice ''message'' = Some message \<longrightarrow> lookup message ''tool_calls'' = None"
  then have "direct_functions api_response = []"
    by (auto simp: direct_functions_def functions_of_choice_def split: option.splits)
  then show "handle_tool_call_response parse reg api_response =
        Inl (StdException ''No tool call found in response'')"
    by (simp add: handle_tool_call_response_first no_tool_call_def)
qed

theorem direct_path_runs_first_call_only_witness:
  "handle_tool_call_response_logged sample_parser sample_registry direct_response =
     (Inr (JObject [(''echoed'', JObject [])]), [(''echo'', JObject [])]) \<and>
   handle_tool_call_response sample_parser sample_registry direct_response =
     Inr (JObject [(''echoed'', JObject [])]) \<and>
   discover sample_parser direct_response = Inr [(''echo'', JObject []), (''bad'', JObject [])] \<and>
   handle_tool_call_response_logged sample_parser sample_registry later_message_response =
     (Inr (JObject [(''echoed'', JObject [])]), [(''echo'', JObject [])]) \<and>
   handle_tool_call_response_logged sample_parser sample_registry delta_response =
     (Inl (StdException ''No tool call found in response''), []) \<and>
   handle_tool_call_response sample_parser sample_registry delta_response =
     Inl (StdException ''No tool call found in response'') \<and>
   discover sample_parser delta_response = Inr [(''echo'', JObject [])] \<and>
   handle_tool_call_response sample_parser sample_registry singular_response =
     Inl (StdException ''No tool call found in response'') \<and>
   discover sample_parser singular_response = Inr [(''echo'', JObject [])]"
proof -
  let ?echo = "function_object ''echo'' (JString ''{}'')"
  let ?bad = "function_object ''bad'' (JString ''{}'')"
  let ?calls = "JArray [JObject [(''id'', JString ''call_0'')], JObject [(''function'', ?echo)],
      JObject [(''function'', ?bad)]]"
  let ?chat = "JObject [(''message'', JObject [(''content'', JString ''hi'')])]"
  let ?later = "JObject [(''message'', JObject [(''tool_calls'',
      JArray [JObject [(''function'', ?echo)], JObject [(''function'', ?bad)]])])]"
  note inst = direct_path_runs_first_call_only [of sample_parser sample_registry]
  have first: "direct_functions direct_response = [?echo, ?bad]"
    by (simp add: direct_functions_def direct_entries_def functions_of_choice_def
        functions_of_tool_calls_def direct_response_def)
  have strict: "items (direct_entries direct_response) =
        [JObject [(''index'', JNumber 0)]] @ JObject [(''message'', JObject [(''tool_calls'', ?calls)])] # [] \<and>
      (\<forall>c\<in>set [JObject [(''index'', JNumber 0)]]. lookup c ''message'' = None) \<and>
      lookup (JObject [(''message'', JObject [(''tool_calls'', ?calls)])]) ''message'' =
        Some (JObject [(''tool_calls'', ?calls)]) \<and>
      lookup (JObject [(''tool_calls'', ?calls)]) ''tool_calls'' = Some ?calls \<and>
      functions_of_tool_calls [JObject [(''id'', JString ''call_0'')], JObject [(''function'', ?echo)],
        JObject [(''function'', ?bad)]] = ?echo # [?bad]"
    by (simp add: direct_entries_def direct_response_def functions_of_tool_calls_def)
  have later: "items (direct_entries later_message_response) = [?chat] @ ?later # [] \<and>
      (\<forall>c\<in>set [?chat]. functions_of_choice c = []) \<and>
      functions_of_choice ?later = ?echo # [?bad]"
    by (simp add: direct_entries_def later_message_response_def functions_of_choice_def
        functions_of_tool_calls_def)
  have echo: "call_function_logged sample_parser sample_registry ?echo =
      (Inr (JObject [(''echoed'', JObject [])]), [(''echo'', JObject [])])"
    by (simp add: call_function_logged_def invoke_logged_def value_string_def sample_parse_def
        sample_parser_def function_object_def registry_eval sample_registry_def echo_handler_def
        bad_handler_def odd_handler_def)
  have echo': "call_function sample_parser sample_registry ?echo =
      Inr (JObject [(''echoed'', JObject [])])"
    by (simp add: direct_eval registry_eval sample_parser_def function_object_def
        sample_registry_def echo_handler_def bad_handler_def odd_handler_def)
  have none: "direct_functions delta_response = []"
    by (simp add: direct_functions_def direct_entries_def functions_of_choice_def
        delta_response_def)
  have delta: "\<forall>choice\<in>set (items (direct_entries delta_response)). lookup choice ''message'' = None"
    by (simp add: direct_entries_def delta_response_def)
  have singular: "\<forall>choice\<in>set (items (direct_entries singular_response)). \<forall>message.
        lookup choice ''message'' = Some message \<longrightarrow> lookup message ''tool_calls'' = None"
    by (simp add: direct_entries_def singular_response_def function_object_def)
  have d0: "discover sample_parser direct_response = Inr [(''echo'', JObject []), (''bad'', JObject [])]"
    by (simp add: direct_response_def discover_eval sample_parser_def function_object_def)
  have d1: "discover sample_parser delta_response = Inr [(''echo'', JObject [])]"
    by (simp add: delta_response_def discover_eval sample_parser_def function_object_def)
  have d2: "discover sample_parser singular_response = Inr [(''echo'', JObject [])]"
    by (simp add: singular_response_def discover_eval sample_parser_def function_object_def)
  from inst [of direct_response] first
  have a: "handle_tool_call_response_logged sample_parser sample_registry direct_response =
      call_function_logged sample_parser sample_registry ?echo"
    by blast
  from inst [of direct_response] strict
  have a': "handle_tool_call_response sample_parser sample_registry direct_response =
      call_function sample_parser sample_registry ?echo"
    by blast
  from inst [of later_message_response] later
  have l: "handle_tool_call_response_logged sample_parser sample_registry later_message_response =
      call_function_logged sample_parser sample_registry ?echo"
    by blast
  from inst [of delta_response] none
  have n: "handle_tool_call_response_logged sample_parser sample_registry delta_response =
     (Inl (StdException ''No tool call found in response''), [])"
    by blast
  from inst [of delta_response] delta
  have b: "handle_tool_call_response sample_parser sample_registry delta_response =
     Inl (StdException ''No tool call found in response'')"
    by blast
  from inst [of singular_response] singular
  have c: "handle_tool_call_response sample_parser sample_registry singular_response =
     Inl (StdException ''No tool call found in response'')"
    by blast
  from a a' l n echo echo' b d0 d1 c d2 show ?thesis by simp
qed

lemma parse_function_arguments_recovers:
  "lookup func ''arguments'' = Some (JString s) \<Longrightarrow> parse s = Inl e \<Longrightarrow>
   parse_function_arguments parse func = JObject []"
  by (simp add: parse_function_arguments_def)

text \<open>
  C7. On the direct path a parse failure of the arguments text is not recovered. On a
  response whose only call has the malformed arguments text \<^verbatim>\<open>{oops\<close>,
  \<^verbatim>\<open>handle_tool_call_response\<close> throws the parser's exception \<open>e\<close> to its caller, while
  \<^verbatim>\<open>process_remote_response_and_execute\<close> runs the same call with an empty mapping as its
  arguments.
\<close>

theorem direct_path_propagates_parse_error:
  "handle_tool_call_response (sample_parse e [(''{}'', JObject [])]) reg bad_arguments_response =
     Inl e \<and>
   process_remote_response_and_execute (sample_parse e [(''{}'', JObject [])]) reg
       bad_arguments_response False =
     Inr [execute_call reg ''echo'' (JObject [])]"
  by (simp add: bad_arguments_response_def direct_eval process_remote_response_and_execute_def
      discover_eval dispatch_def function_object_def)

end
